theory Spec2Isabelle
  imports Main "HOL-Library.AList"
begin

section \<open>The deserializer of superserial (src/deserialize.ts)\<close>

text \<open>
  The input text \<open>buf\<close> is a \<open>string\<close> and the cursor \<open>pos\<close> a natural number,
  as in the source. JavaScript reads \<open>buf[pos]\<close> as \<open>undefined\<close> at and beyond the end of
  the text; \<open>peek\<close> returns \<open>None\<close> there. Nothing in the source stops \<open>pos\<close> from
  running past the end, and neither does the model.

  Strings produced by the parser are lists of UTF-16 code units (\<open>jsstring\<close>), since a
  \<open>\uXXXX\<close> escape makes any code unit below 65536. The characters of the input text are
  those of \<open>char\<close> (code units below 256).
\<close>

type_synonym jsstring = "nat list"

definition units :: "string \<Rightarrow> jsstring" where
  "units s = map of_char s"

definition peek :: "string \<Rightarrow> nat \<Rightarrow> char option" where
  "peek buf pos = (if pos < length buf then Some (buf ! pos) else None)"

text \<open>\<open>result += buf[pos]\<close>: string concatenation turns \<open>undefined\<close> into its name.\<close>

definition append_char :: "jsstring \<Rightarrow> char option \<Rightarrow> jsstring" where
  "append_char result c =
     (case c of Some ch \<Rightarrow> result @ [of_char ch] | None \<Rightarrow> result @ units ''undefined'')"

definition WS_CHARS :: "char set" where
  "WS_CHARS = {CHR 0x0D, CHR 0x0A, CHR 0x09, CHR '' ''}"

definition NUM_CHARS :: "char set" where
  "NUM_CHARS = set ''0123456789''"

text \<open>\<open>S.has(buf[pos])\<close>: \<open>undefined\<close> is in neither set.\<close>

definition has :: "char set \<Rightarrow> char option \<Rightarrow> bool" where
  "has S c = (case c of Some ch \<Rightarrow> ch \<in> S | None \<Rightarrow> False)"

text \<open>\<open>STRING_ESC[buf[pos]]\<close>, with the code unit of the replacement.\<close>

definition STRING_ESC :: "char option \<Rightarrow> nat option" where
  "STRING_ESC c =
     (if c = Some (CHR 0x22) then Some 0x22
      else if c = Some (CHR 0x5C) then Some 0x5C
      else if c = Some CHR ''b'' then Some 0x08
      else if c = Some CHR ''f'' then Some 0x0C
      else if c = Some CHR ''n'' then Some 0x0A
      else if c = Some CHR ''r'' then Some 0x0D
      else if c = Some CHR ''t'' then Some 0x09
      else None)"

subsection \<open>Values, errors and results\<close>

text \<open>
  A Number is kept as the source computes it: the sign flag \<open>isNeg\<close> and the decimal
  text handed to the unary plus. \<open>Decimal True ''0''\<close> is \<open>-1 * +"0"\<close>, the negative
  zero; the rounding of the text to a double is not modelled.
\<close>

datatype jsnumber = NaN | Infinity bool | Decimal bool string

record regflags =
  ignoreCase :: bool
  multiline :: bool
  global :: bool

text \<open>
  The values the resolver returns as they are (for-in finds no member in them).
\<close>

datatype atom =
    VUndefined
  | VNull
  | VBool bool
  | VNumber jsnumber
  | VBigInt int
  | VString jsstring
  | VRegExp jsstring regflags

text \<open>
  What the parser builds: every array and object of a parsed statement is new and held
  in one place, so a statement is a tree. \<open>TRef index\<close> is the function
  \<open>() => refs[index]\<close> carrying \<open>refSymbol\<close>. \<open>TObject cls fields\<close> holds the members in
  insertion order and, in \<open>cls\<close>, the name of the class whose prototype was attached;
  with no class the prototype is \<open>Object.prototype\<close>. \<open>TDerived proto fields\<close> is an object
  whose prototype was replaced by the assignment to its member \<open>__proto__\<close>: by the parsed
  value \<open>proto\<close>, or by \<open>null\<close> (\<open>None\<close>).
\<close>

datatype tree =
    TAtom atom
  | TRef nat
  | TArray "tree list"
  | TObject "string option" "(jsstring \<times> tree) list"
  | TDerived "tree option" "(jsstring \<times> tree) list"

text \<open>
  \<open>error()\<close> builds the SyntaxError from \<open>buf[pos]\<close> (\<open>None\<close> is the text "end") and
  \<open>pos\<close>. \<open>InvalidRegExp\<close> is the SyntaxError that \<open>new RegExp\<close> itself throws.
  \<open>TypeError\<close> is what the engine throws from \<open>Object.setPrototypeOf\<close> when the prototype
  is neither an object nor \<open>null\<close>, and from an assignment \<open>result[key] = value\<close> that
  meets a member it cannot write (the module is strict code).
\<close>

datatype error = SyntaxError "char option" nat | InvalidRegExp jsstring | TypeError

datatype 'a result = Ok 'a nat | Throw error

definition error :: "string \<Rightarrow> nat \<Rightarrow> error" where
  "error buf pos = SyntaxError (peek buf pos) pos"

text \<open>
  What the caller supplies and what the JavaScript engine decides. \<open>classes name\<close> is what
  the lookup \<open>mapClasses[name]\<close> finds, own or inherited: \<open>Absent\<close> when the value is
  falsy; \<open>NotAClass\<close> when it is truthy and its \<open>prototype\<close> is neither an object nor
  \<open>null\<close>, so that \<open>Object.setPrototypeOf\<close> throws a TypeError; \<open>NullClass\<close> when its
  \<open>prototype\<close> is \<open>null\<close>; \<open>ObjectClass\<close> when its \<open>prototype\<close> is \<open>Object.prototype\<close>, as for
  \<open>Object\<close> itself; \<open>Class\<close> when its \<open>prototype\<close> is another object. The
  prototype of a \<open>Class\<close> is taken to be as a \<open>class\<close>
  declaration with methods makes it, or \<open>Object.prototype\<close> itself: it has no enumerable
  member, none that an assignment cannot write, and the accessor \<open>__proto__\<close> of
  \<open>Object.prototype\<close> is found through it. \<open>regexp_ok source\<close> says that the engine
  compiles the pattern. \<open>console.warn\<close> prints a diagnostic and changes nothing else; it
  is left out.
\<close>

datatype class_entry = Absent | NotAClass | NullClass | ObjectClass | Class

record env =
  classes :: "string \<Rightarrow> class_entry"
  regexp_ok :: "jsstring \<Rightarrow> bool"

subsection \<open>Scanner\<close>

function white :: "string \<Rightarrow> nat \<Rightarrow> nat" where
  "white buf pos = (if has WS_CHARS (peek buf pos) then white buf (pos + 1) else pos)"
  by pat_completeness auto
termination
  by (relation "measure (\<lambda>(buf, pos). length buf - pos)")
     (auto simp: has_def peek_def split: if_splits)

declare white.simps [simp del]

fun consume :: "string \<Rightarrow> nat \<Rightarrow> string \<Rightarrow> unit result" where
  "consume buf pos [] = Ok () pos"
| "consume buf pos (c # cs) =
     (if peek buf pos = Some c then consume buf (pos + 1) cs else Throw (error buf pos))"

text \<open>The loop \<open>while (NUM_CHARS.has(buf[pos])) result += buf[pos++]\<close>.\<close>

function digits :: "string \<Rightarrow> nat \<Rightarrow> string \<Rightarrow> string \<times> nat" where
  "digits buf pos result =
     (case peek buf pos of
        Some c \<Rightarrow> if c \<in> NUM_CHARS then digits buf (pos + 1) (result @ [c]) else (result, pos)
      | None \<Rightarrow> (result, pos))"
  by pat_completeness auto
termination
  by (relation "measure (\<lambda>(buf, pos, result). length buf - pos)")
     (auto simp: peek_def split: if_splits)

declare digits.simps [simp del]

text \<open>The value of a text of decimal digits; the empty text is 0, as \<open>+""\<close> is.\<close>

definition decimal :: "string \<Rightarrow> nat" where
  "decimal s = foldl (\<lambda>a c. 10 * a + (of_char c - 48)) 0 s"

definition BigInt :: "string \<Rightarrow> int" where
  "BigInt s = (case s of [] \<Rightarrow> 0
               | c # ds \<Rightarrow> if c = CHR ''-'' then - int (decimal ds) else int (decimal s))"

subsection \<open>parseRef\<close>

definition parseRef :: "string \<Rightarrow> nat \<Rightarrow> tree result" where
  "parseRef buf pos =
     (case digits buf (pos + 1) [] of (result, pos') \<Rightarrow> Ok (TRef (decimal result)) pos')"

subsection \<open>parseNumber\<close>

text \<open>
  One digit is required, \<open>if (NUM_CHARS.has(buf[pos])) result += buf[pos++]; else throw error()\<close>,
  and the digits after it are taken: the integer part, the fraction and the exponent
  each do that.
\<close>

definition digits1 :: "string \<Rightarrow> nat \<Rightarrow> string \<Rightarrow> string result" where
  "digits1 buf pos result =
     (case peek buf pos of
        Some c \<Rightarrow>
          if c \<in> NUM_CHARS then
            (case digits buf (pos + 1) (result @ [c]) of (r, p) \<Rightarrow> Ok r p)
          else Throw (error buf pos)
      | None \<Rightarrow> Throw (error buf pos))"

definition fraction :: "string \<Rightarrow> nat \<Rightarrow> string \<Rightarrow> string result" where
  "fraction buf pos result =
     (if peek buf pos = Some CHR ''.'' then digits1 buf (pos + 1) (result @ [CHR ''.''])
      else Ok result pos)"

definition exponent :: "string \<Rightarrow> nat \<Rightarrow> string \<Rightarrow> string result" where
  "exponent buf pos result =
     (case peek buf pos of
        Some e \<Rightarrow>
          if e = CHR ''e'' \<or> e = CHR ''E'' then
            (case peek buf (pos + 1) of
               Some s \<Rightarrow>
                 if s = CHR ''-'' \<or> s = CHR ''+'' then digits1 buf (pos + 2) (result @ [e, s])
                 else digits1 buf (pos + 1) (result @ [e])
             | None \<Rightarrow> digits1 buf (pos + 1) (result @ [e]))
          else Ok result pos
      | None \<Rightarrow> Ok result pos)"

definition parseNumber :: "string \<Rightarrow> nat \<Rightarrow> tree result" where
  "parseNumber buf pos0 =
     (let isNeg = (peek buf pos0 = Some CHR ''-'');
          pos = (if isNeg then pos0 + 1 else pos0)
      in if peek buf pos = Some CHR ''I'' then
           (case consume buf (pos + 1) ''nfinity'' of
              Throw e \<Rightarrow> Throw e
            | Ok u pos1 \<Rightarrow> Ok (TAtom (VNumber (Infinity isNeg))) pos1)
         else
           (case digits1 buf pos [] of
              Throw e \<Rightarrow> Throw e
            | Ok result pos1 \<Rightarrow>
                if peek buf pos1 = Some CHR ''n'' then
                  Ok (TAtom (VBigInt (BigInt (if isNeg then CHR ''-'' # result else result))))
                     (pos1 + 1)
                else
                  (case fraction buf pos1 result of
                     Throw e \<Rightarrow> Throw e
                   | Ok result2 pos2 \<Rightarrow>
                       (case exponent buf pos2 result2 of
                          Throw e \<Rightarrow> Throw e
                        | Ok result3 pos3 \<Rightarrow> Ok (TAtom (VNumber (Decimal isNeg result3))) pos3))))"

subsection \<open>parseString\<close>

text \<open>\<open>parseInt(buf[pos], 16)\<close> of one character: a hexadecimal digit or NaN.\<close>

definition parseInt16 :: "char option \<Rightarrow> nat option" where
  "parseInt16 c =
     (case c of
        None \<Rightarrow> None
      | Some ch \<Rightarrow>
          (let k = (of_char ch :: nat)
           in if 48 \<le> k \<and> k \<le> 57 then Some (k - 48)
              else if 97 \<le> k \<and> k \<le> 102 then Some (k - 87)
              else if 65 \<le> k \<and> k \<le> 70 then Some (k - 55)
              else None))"

text \<open>The loop \<open>for (let i = 0; i < 4; i++)\<close>, counting the rounds that remain.\<close>

fun hex_loop :: "nat \<Rightarrow> string \<Rightarrow> nat \<Rightarrow> nat \<Rightarrow> nat result" where
  "hex_loop 0 buf pos uffff = Ok uffff pos"
| "hex_loop (Suc i) buf pos uffff =
     (case parseInt16 (peek buf pos) of
        None \<Rightarrow> Throw (error buf pos)
      | Some hex \<Rightarrow> hex_loop i buf (pos + 1) (uffff * 16 + hex))"

text \<open>
  The loop \<open>while (1)\<close> of \<open>parseString\<close> has no exit at the end of the text, so it is
  given fuel: one unit for each round, \<open>None\<close> when the fuel is spent.
\<close>

fun parseString_loop :: "nat \<Rightarrow> string \<Rightarrow> nat \<Rightarrow> jsstring \<Rightarrow> jsstring result option" where
  "parseString_loop 0 buf pos result = None"
| "parseString_loop (Suc fuel) buf pos result =
     (if peek buf pos = Some (CHR 0x22) then Some (Ok result (pos + 1))
      else if peek buf pos = Some (CHR 0x5C) then
        (if peek buf (pos + 1) = Some CHR ''u'' then
           (case hex_loop 4 buf (pos + 2) 0 of
              Throw e \<Rightarrow> Some (Throw e)
            | Ok uffff pos' \<Rightarrow> parseString_loop fuel buf pos' (result @ [uffff]))
         else
           (case STRING_ESC (peek buf (pos + 1)) of
              Some c \<Rightarrow> parseString_loop fuel buf (pos + 2) (result @ [c])
            | None \<Rightarrow> Some (Throw (error buf (pos + 1)))))
      else parseString_loop fuel buf (pos + 1) (append_char result (peek buf pos)))"

definition parseString :: "nat \<Rightarrow> string \<Rightarrow> nat \<Rightarrow> jsstring result option" where
  "parseString fuel buf pos = parseString_loop fuel buf (pos + 1) []"

subsection \<open>parseRegExp\<close>

text \<open>The nested \<open>switch\<close> after the closing slash: the flags text and the new cursor.\<close>

definition regexpFlags :: "string \<Rightarrow> nat \<Rightarrow> string \<times> nat" where
  "regexpFlags buf pos =
     (if peek buf pos = Some CHR ''i'' then
        (if peek buf (pos + 1) = Some CHR ''m'' then
           (if peek buf (pos + 2) = Some CHR ''g'' then (''img'', pos + 3) else (''im'', pos + 2))
         else if peek buf (pos + 1) = Some CHR ''g'' then
           (if peek buf (pos + 2) = Some CHR ''m'' then (''igm'', pos + 3) else (''ig'', pos + 2))
         else (''i'', pos + 1))
      else if peek buf pos = Some CHR ''m'' then
        (if peek buf (pos + 1) = Some CHR ''i'' then
           (if peek buf (pos + 2) = Some CHR ''g'' then (''mig'', pos + 3) else (''mi'', pos + 2))
         else if peek buf (pos + 1) = Some CHR ''g'' then
           (if peek buf (pos + 2) = Some CHR ''i'' then (''mgi'', pos + 3) else (''mg'', pos + 2))
         else (''m'', pos + 1))
      else if peek buf pos = Some CHR ''g'' then
        (if peek buf (pos + 1) = Some CHR ''m'' then
           (if peek buf (pos + 2) = Some CHR ''i'' then (''gmi'', pos + 3) else (''gm'', pos + 2))
         else if peek buf (pos + 1) = Some CHR ''i'' then
           (if peek buf (pos + 2) = Some CHR ''m'' then (''gim'', pos + 3) else (''gi'', pos + 2))
         else (''g'', pos + 1))
      else ([], pos))"

text \<open>
  \<open>new RegExp(result, flags)\<close>: the engine throws on a pattern it cannot compile and
  otherwise keeps the source and one boolean for each flag.
\<close>

definition new_RegExp :: "env \<Rightarrow> jsstring \<Rightarrow> string \<Rightarrow> nat \<Rightarrow> tree result" where
  "new_RegExp env source flags pos =
     (if regexp_ok env source then
        Ok (TAtom (VRegExp source
              \<lparr>ignoreCase = CHR ''i'' \<in> set flags,
               multiline = CHR ''m'' \<in> set flags,
               global = CHR ''g'' \<in> set flags\<rparr>)) pos
      else Throw (InvalidRegExp source))"

text \<open>The loop \<open>while (1)\<close> of \<open>parseRegExp\<close>, with fuel as for \<open>parseString\<close>.\<close>

fun parseRegExp_loop :: "nat \<Rightarrow> env \<Rightarrow> string \<Rightarrow> nat \<Rightarrow> jsstring \<Rightarrow> tree result option" where
  "parseRegExp_loop 0 env buf pos result = None"
| "parseRegExp_loop (Suc fuel) env buf pos result =
     (if peek buf pos = Some CHR ''/'' then
        (case regexpFlags buf (pos + 1) of
           (flags, pos') \<Rightarrow> Some (new_RegExp env result flags pos'))
      else if peek buf pos = Some (CHR 0x5C) then
        parseRegExp_loop fuel env buf (pos + 2)
          (append_char (append_char result (peek buf pos)) (peek buf (pos + 1)))
      else parseRegExp_loop fuel env buf (pos + 1) (append_char result (peek buf pos)))"

definition parseRegExp :: "nat \<Rightarrow> env \<Rightarrow> string \<Rightarrow> nat \<Rightarrow> tree result option" where
  "parseRegExp fuel env buf pos =
     (if peek buf (pos + 1) = Some CHR ''/'' then Some (Throw (error buf (pos + 1)))
      else parseRegExp_loop fuel env buf (pos + 1) [])"

subsection \<open>parseName\<close>

definition is_letter :: "nat \<Rightarrow> bool" where
  "is_letter chartCode =
     (65 \<le> chartCode \<and> chartCode \<le> 90 \<or> 97 \<le> chartCode \<and> chartCode \<le> 122)"

text \<open>
  \<open>while ((chartCode = buf.charCodeAt(pos)))\<close> stops on NaN (the end of the text) and on
  the code 0.
\<close>

function parseName_loop :: "string \<Rightarrow> nat \<Rightarrow> string \<Rightarrow> string \<times> nat" where
  "parseName_loop buf pos result =
     (case peek buf pos of
        None \<Rightarrow> (result, pos)
      | Some c \<Rightarrow>
          (let chartCode = (of_char c :: nat)
           in if chartCode = 0 then (result, pos)
              else if is_letter chartCode \<or> 48 \<le> chartCode \<and> chartCode \<le> 57 \<or> chartCode = 95
                then parseName_loop buf (pos + 1) (result @ [c])
              else (result, pos)))"
  by pat_completeness auto
termination
  by (relation "measure (\<lambda>(buf, pos, result). length buf - pos)")
     (auto simp: peek_def split: if_splits)

declare parseName_loop.simps [simp del]

definition parseName :: "string \<Rightarrow> nat \<Rightarrow> string \<times> nat" where
  "parseName buf pos =
     (case peek buf pos of
        None \<Rightarrow> ([], pos)
      | Some c \<Rightarrow>
          if is_letter (of_char c) then parseName_loop buf (pos + 1) [c] else ([], pos))"

subsection \<open>parseJson, parseArray, parseObject\<close>

text \<open>
  \<open>Object.setPrototypeOf(obj, baseClass.prototype)\<close>, for the prototype object of the
  class \<open>name\<close>, for \<open>null\<close> and for \<open>Object.prototype\<close>.
\<close>

fun setPrototypeOf :: "tree \<Rightarrow> string \<Rightarrow> tree" where
  "setPrototypeOf (TObject cls members) name = TObject (Some name) members"
| "setPrototypeOf (TDerived proto members) name = TObject (Some name) members"
| "setPrototypeOf obj name = obj"

fun setPrototypeOf_null :: "tree \<Rightarrow> tree" where
  "setPrototypeOf_null (TObject cls members) = TDerived None members"
| "setPrototypeOf_null (TDerived proto members) = TDerived None members"
| "setPrototypeOf_null obj = obj"

fun setPrototypeOf_Object :: "tree \<Rightarrow> tree" where
  "setPrototypeOf_Object (TObject cls members) = TObject None members"
| "setPrototypeOf_Object (TDerived proto members) = TObject None members"
| "setPrototypeOf_Object obj = obj"

text \<open>
  \<open>result[key] = value\<close> on the object under construction. The engine looks for the
  member \<open>key\<close> in the object and then along its prototype chain. An own member is
  overwritten in place. Otherwise what is found on the chain decides (\<open>slot\<close>): nothing,
  or a data member that can be written, and the object gets a new own member
  (\<open>Ordinary\<close>); the accessor \<open>__proto__\<close> of \<open>Object.prototype\<close>, whose setter replaces
  the prototype of the object when the value is an object or \<open>null\<close> and does nothing
  for any other value (\<open>Setter\<close>); a member that cannot be written, and the assignment
  throws a TypeError (\<open>Refused\<close>).

  A new object has the prototype \<open>Object.prototype\<close>, so the key \<open>__proto__\<close> reaches the
  setter and any other key is \<open>Ordinary\<close>. Once the prototype is a parsed value, the
  chain runs through that value: an object (its own members, then its chain), an
  array, a regular expression or a reference function. \<open>function_locked\<close> are the
  members of a function that cannot be written (\<open>length\<close> and \<open>name\<close> are read-only,
  \<open>arguments\<close> and \<open>caller\<close> have a setter that throws); \<open>regexp_getters\<close> are the
  accessors of \<open>RegExp.prototype\<close> that have no setter, as of ECMAScript 2024.
\<close>

definition proto_key :: jsstring where
  "proto_key = units ''__proto__''"

datatype slot = Ordinary | Setter | Refused

definition builtin_slot :: "jsstring \<Rightarrow> slot" where
  "builtin_slot k = (if k = proto_key then Setter else Ordinary)"

definition function_locked :: "jsstring list" where
  "function_locked = map units [''length'', ''name'', ''arguments'', ''caller'']"

definition regexp_getters :: "jsstring list" where
  "regexp_getters = map units [''dotAll'', ''flags'', ''global'', ''hasIndices'', ''ignoreCase'',
     ''multiline'', ''source'', ''sticky'', ''unicode'', ''unicodeSets'']"

definition has_own :: "(jsstring \<times> 'v) list \<Rightarrow> jsstring \<Rightarrow> bool" where
  "has_own members k = (k \<in> set (map fst members))"

text \<open>\<open>slot_of t key\<close>: what the search for \<open>key\<close> finds from the prototype \<open>t\<close> on.\<close>

fun slot_of :: "tree \<Rightarrow> jsstring \<Rightarrow> slot" where
  "slot_of (TObject cls members) k = (if has_own members k then Ordinary else builtin_slot k)"
| "slot_of (TDerived None members) k = Ordinary"
| "slot_of (TDerived (Some t) members) k = (if has_own members k then Ordinary else slot_of t k)"
| "slot_of (TArray ts) k = builtin_slot k"
| "slot_of (TRef index) k = (if k \<in> set function_locked then Refused else builtin_slot k)"
| "slot_of (TAtom a) k = (if k \<in> set regexp_getters then Refused else builtin_slot k)"

text \<open>\<open>typeof value\<close> is "object" or "function" and the value is not \<open>null\<close>.\<close>

fun is_object :: "tree \<Rightarrow> bool" where
  "is_object (TAtom (VRegExp source flags)) = True"
| "is_object (TAtom a) = False"
| "is_object t = True"

fun members_of :: "tree \<Rightarrow> (jsstring \<times> tree) list" where
  "members_of (TObject cls members) = members"
| "members_of (TDerived proto members) = members"
| "members_of t = []"

text \<open>The setter of \<open>__proto__\<close>, called on the object with the value.\<close>

definition set_prototype :: "tree \<Rightarrow> tree \<Rightarrow> tree" where
  "set_prototype obj v =
     (if is_object v then TDerived (Some v) (members_of obj)
      else if v = TAtom VNull then TDerived None (members_of obj)
      else obj)"

text \<open>\<open>assign key value obj\<close> is the object after the assignment, \<open>None\<close> for the TypeError.\<close>

fun assign :: "jsstring \<Rightarrow> tree \<Rightarrow> tree \<Rightarrow> tree option" where
  "assign k v (TObject cls members) =
     (if has_own members k then Some (TObject cls (AList.update k v members))
      else
        (case builtin_slot k of
           Setter \<Rightarrow> Some (set_prototype (TObject cls members) v)
         | Ordinary \<Rightarrow> Some (TObject cls (AList.update k v members))
         | Refused \<Rightarrow> None))"
| "assign k v (TDerived proto members) =
     (if has_own members k then Some (TDerived proto (AList.update k v members))
      else
        (case (case proto of None \<Rightarrow> Ordinary | Some t \<Rightarrow> slot_of t k) of
           Setter \<Rightarrow> Some (set_prototype (TDerived proto members) v)
         | Ordinary \<Rightarrow> Some (TDerived proto (AList.update k v members))
         | Refused \<Rightarrow> None))"
| "assign k v t = Some t"

text \<open>
  The three functions call each other, and the loops of \<open>parseArray\<close> and
  \<open>parseObject\<close> call \<open>parseJson\<close> and \<open>parseString\<close>; every call and every round
  takes one unit of fuel. \<open>result[key] = value\<close> overwrites a member in place or adds
  it at the end (\<open>AList.update\<close>); the key \<open>__proto__\<close> is stored like any other
  and is not given its JavaScript meaning.
\<close>

function (sequential) parseJson :: "nat \<Rightarrow> env \<Rightarrow> string \<Rightarrow> nat \<Rightarrow> tree result option"
  and parseArray :: "nat \<Rightarrow> env \<Rightarrow> string \<Rightarrow> nat \<Rightarrow> tree result option"
  and parseArray_loop :: "nat \<Rightarrow> env \<Rightarrow> string \<Rightarrow> nat \<Rightarrow> tree list \<Rightarrow> tree result option"
  and parseObject :: "nat \<Rightarrow> env \<Rightarrow> string \<Rightarrow> nat \<Rightarrow> tree result option"
  and parseObject_loop :: "nat \<Rightarrow> env \<Rightarrow> string \<Rightarrow> nat \<Rightarrow> tree \<Rightarrow> tree result option"
where
  "parseJson 0 env buf pos0 = None"
| "parseJson (Suc fuel) env buf pos0 =
     (let pos = white buf pos0; c = peek buf pos
      in if c = Some CHR ''$'' then Some (parseRef buf pos)
         else if c = Some CHR ''{'' then parseObject fuel env buf pos
         else if c = Some CHR ''['' then parseArray fuel env buf pos
         else if c = Some CHR ''/'' then parseRegExp fuel env buf pos
         else if c = Some (CHR 0x22) then
           (case parseString fuel buf pos of
              None \<Rightarrow> None
            | Some (Throw e) \<Rightarrow> Some (Throw e)
            | Some (Ok str pos1) \<Rightarrow> Some (Ok (TAtom (VString str)) pos1))
         else if c = Some CHR ''-'' \<or> has NUM_CHARS c then Some (parseNumber buf pos)
         else
           (case parseName buf pos of
              (name, pos1) \<Rightarrow>
                if name = ''NaN'' then Some (Ok (TAtom (VNumber NaN)) pos1)
                else if name = ''Infinity'' then Some (Ok (TAtom (VNumber (Infinity False))) pos1)
                else if name = ''undefined'' then Some (Ok (TAtom VUndefined) pos1)
                else if name = ''null'' then Some (Ok (TAtom VNull) pos1)
                else if name = ''true'' then Some (Ok (TAtom (VBool True)) pos1)
                else if name = ''false'' then Some (Ok (TAtom (VBool False)) pos1)
                else if peek buf pos1 = Some CHR ''{'' then
                  (case parseObject fuel env buf pos1 of
                     None \<Rightarrow> None
                   | Some (Throw e) \<Rightarrow> Some (Throw e)
                   | Some (Ok obj pos2) \<Rightarrow>
                       (case classes env name of
                          Absent \<Rightarrow> Some (Ok obj pos2)
                        | NotAClass \<Rightarrow> Some (Throw TypeError)
                        | NullClass \<Rightarrow> Some (Ok (setPrototypeOf_null obj) pos2)
                        | ObjectClass \<Rightarrow> Some (Ok (setPrototypeOf_Object obj) pos2)
                        | Class \<Rightarrow> Some (Ok (setPrototypeOf obj name) pos2)))
                else Some (Throw (error buf pos1))))"
| "parseArray 0 env buf pos0 = None"
| "parseArray (Suc fuel) env buf pos0 =
     (let pos = white buf (pos0 + 1)
      in if peek buf pos = Some CHR '']'' then Some (Ok (TArray []) (pos + 1))
         else
           (case parseJson fuel env buf pos of
              None \<Rightarrow> None
            | Some (Throw e) \<Rightarrow> Some (Throw e)
            | Some (Ok v pos1) \<Rightarrow> parseArray_loop fuel env buf (white buf pos1) [v]))"
| "parseArray_loop 0 env buf pos result = None"
| "parseArray_loop (Suc fuel) env buf pos result =
     (if peek buf pos = Some CHR '','' then
        (case parseJson fuel env buf (pos + 1) of
           None \<Rightarrow> None
         | Some (Throw e) \<Rightarrow> Some (Throw e)
         | Some (Ok v pos1) \<Rightarrow> parseArray_loop fuel env buf (white buf pos1) (result @ [v]))
      else if peek buf pos = Some CHR '']'' then Some (Ok (TArray result) (pos + 1))
      else Some (Throw (error buf pos)))"
| "parseObject 0 env buf pos0 = None"
| "parseObject (Suc fuel) env buf pos0 =
     (let pos = white buf (pos0 + 1)
      in if peek buf pos = Some CHR ''}'' then Some (Ok (TObject None []) (pos + 1))
         else parseObject_loop fuel env buf pos (TObject None []))"
| "parseObject_loop 0 env buf pos result = None"
| "parseObject_loop (Suc fuel) env buf pos result =
     (case parseString fuel buf pos of
        None \<Rightarrow> None
      | Some (Throw e) \<Rightarrow> Some (Throw e)
      | Some (Ok key pos1) \<Rightarrow>
          (let pos2 = white buf pos1
           in if peek buf pos2 \<noteq> Some CHR '':'' then Some (Throw (error buf pos2))
              else
                (case parseJson fuel env buf (pos2 + 1) of
                   None \<Rightarrow> None
                 | Some (Throw e) \<Rightarrow> Some (Throw e)
                 | Some (Ok v pos3) \<Rightarrow>
                     (case assign key v result of
                        None \<Rightarrow> Some (Throw TypeError)
                      | Some result1 \<Rightarrow>
                          (let pos4 = white buf pos3
                           in if peek buf pos4 = Some CHR '','' then
                                parseObject_loop fuel env buf (white buf (pos4 + 1)) result1
                              else if peek buf pos4 = Some CHR ''}'' then
                                Some (Ok result1 (pos4 + 1))
                              else Some (Throw (error buf pos4)))))))"
  by pat_completeness auto
termination
  by (relation "measure (\<lambda>x. case x of
        Inl (Inl (fuel, env, buf, pos)) \<Rightarrow> fuel
      | Inl (Inr (fuel, env, buf, pos)) \<Rightarrow> fuel
      | Inr (Inl (fuel, env, buf, pos, result)) \<Rightarrow> fuel
      | Inr (Inr (Inl (fuel, env, buf, pos))) \<Rightarrow> fuel
      | Inr (Inr (Inr (fuel, env, buf, pos, result))) \<Rightarrow> fuel)") auto

subsection \<open>The statements of a document\<close>

text \<open>The loop \<open>while (buf[pos] === ";")\<close> of the driver, filling \<open>refs\<close>.\<close>

fun statements :: "nat \<Rightarrow> env \<Rightarrow> string \<Rightarrow> nat \<Rightarrow> tree list \<Rightarrow> tree list result option" where
  "statements 0 env buf pos refs = None"
| "statements (Suc fuel) env buf pos refs =
     (if peek buf pos = Some CHR '';'' then
        (case consume buf pos '';'' of
           Throw e \<Rightarrow> Some (Throw e)
         | Ok u pos1 \<Rightarrow>
             (case parseJson fuel env buf pos1 of
                None \<Rightarrow> None
              | Some (Throw e) \<Rightarrow> Some (Throw e)
              | Some (Ok v pos2) \<Rightarrow> statements fuel env buf (white buf pos2) (refs @ [v])))
      else Some (Ok refs pos))"

definition parseDocument :: "nat \<Rightarrow> env \<Rightarrow> string \<Rightarrow> tree list result option" where
  "parseDocument fuel env buf =
     (case parseJson fuel env buf 0 of
        None \<Rightarrow> None
      | Some (Throw e) \<Rightarrow> Some (Throw e)
      | Some (Ok v pos) \<Rightarrow>
          (case statements fuel env buf (white buf pos) [v] of
             None \<Rightarrow> None
           | Some (Throw e) \<Rightarrow> Some (Throw e)
           | Some (Ok refs pos1) \<Rightarrow>
               if length buf \<noteq> pos1 then Some (Throw (error buf pos1))
               else Some (Ok refs pos1)))"

subsection \<open>The store of the resolver\<close>

text \<open>
  \<open>resolveRef\<close> writes into arrays and objects that can be reached along several paths,
  and along a cycle once a reference is put in, so it works on a store: a list of
  cells, the address of a cell being its index. A value is an atom, a reference
  function, the address of an array or object, or \<open>refSymbol\<close>, the value of the member
  \<open>ref\<close> of every reference function. A cell is an array, an object with the prototype
  \<open>Object.prototype\<close> or that of a class, or an object with a parsed value or \<open>null\<close> as
  prototype.
\<close>

datatype hval = HAtom atom | HRef nat | HPtr nat | HSymbol

datatype cell =
    CArray "hval list"
  | CObject "string option" "(jsstring \<times> hval) list"
  | CDerived "hval option" "(jsstring \<times> hval) list"

type_synonym heap = "cell list"

text \<open>
  The statements are put into the store before the resolver runs: \<open>layout b t\<close> gives
  the value of the tree \<open>t\<close> and the cells of its arrays and objects, to be placed from
  address \<open>b\<close> on, each array and object after its parts.
\<close>

fun layout :: "nat \<Rightarrow> tree \<Rightarrow> hval \<times> cell list"
  and layout_list :: "nat \<Rightarrow> tree list \<Rightarrow> hval list \<times> cell list"
  and layout_members :: "nat \<Rightarrow> (jsstring \<times> tree) list \<Rightarrow> (jsstring \<times> hval) list \<times> cell list"
where
  "layout b (TAtom a) = (HAtom a, [])"
| "layout b (TRef index) = (HRef index, [])"
| "layout b (TArray ts) =
     (case layout_list b ts of (vs, cs) \<Rightarrow> (HPtr (b + length cs), cs @ [CArray vs]))"
| "layout b (TObject cls ms) =
     (case layout_members b ms of (fs, cs) \<Rightarrow> (HPtr (b + length cs), cs @ [CObject cls fs]))"
| "layout b (TDerived None ms) =
     (case layout_members b ms of (fs, cs) \<Rightarrow> (HPtr (b + length cs), cs @ [CDerived None fs]))"
| "layout b (TDerived (Some t) ms) =
     (case layout b t of
        (pv, cs0) \<Rightarrow>
          (case layout_members (b + length cs0) ms of
             (fs, cs) \<Rightarrow> (HPtr (b + length cs0 + length cs), cs0 @ cs @ [CDerived (Some pv) fs])))"
| "layout_list b [] = ([], [])"
| "layout_list b (t # ts) =
     (case layout b t of
        (v, cs) \<Rightarrow>
          (case layout_list (b + length cs) ts of (vs, cs1) \<Rightarrow> (v # vs, cs @ cs1)))"
| "layout_members b [] = ([], [])"
| "layout_members b ((k, t) # ms) =
     (case layout b t of
        (v, cs) \<Rightarrow>
          (case layout_members (b + length cs) ms of (fs, cs1) \<Rightarrow> ((k, v) # fs, cs @ cs1)))"

definition cell_at :: "heap \<Rightarrow> nat \<Rightarrow> cell option" where
  "cell_at h a = (if a < length h then Some (h ! a) else None)"

text \<open>\<open>refs[index]\<close>: \<open>undefined\<close> when the table has no such entry.\<close>

definition lookup :: "hval list \<Rightarrow> nat \<Rightarrow> hval" where
  "lookup refs index = (if index < length refs then refs ! index else HAtom VUndefined)"

text \<open>
  The keys that for-in visits: the indices of an array; for an object its own keys,
  those that are array indices (a decimal numeral below \<open>2^32 - 1\<close> with no leading
  zero) in ascending order, then the other keys in insertion order; after them the
  enumerable keys of the prototype, of its prototype and so on, each key once.
  \<open>Object.prototype\<close>, \<open>Array.prototype\<close>, \<open>RegExp.prototype\<close>, \<open>Function.prototype\<close> and the
  prototype of a class have no enumerable member, a regular expression has none of
  its own, and a reference function has one, \<open>ref\<close>.
\<close>

datatype pkey = Elem nat | Member jsstring

text \<open>Two numerals of the same length, compared digit by digit.\<close>

fun numeral_le :: "jsstring \<Rightarrow> jsstring \<Rightarrow> bool" where
  "numeral_le (x # xs) (y # ys) = (if x < y then True else if y < x then False else numeral_le xs ys)"
| "numeral_le xs ys = True"

definition is_index :: "jsstring \<Rightarrow> bool" where
  "is_index k =
     (if k = [] then False
      else if \<not> list_all (\<lambda>u. 48 \<le> u \<and> u \<le> 57) k then False
      else if hd k = 48 then length k = 1
      else if length k < 10 then True
      else if length k = 10 then numeral_le k (units ''4294967294'')
      else False)"

text \<open>
  Index keys have no leading zero, so the shorter one is the smaller number.
\<close>

definition index_le :: "jsstring \<Rightarrow> jsstring \<Rightarrow> bool" where
  "index_le j k =
     (if length j < length k then True
      else if length k < length j then False
      else numeral_le j k)"

fun insert_index :: "jsstring \<Rightarrow> jsstring list \<Rightarrow> jsstring list" where
  "insert_index k [] = [k]"
| "insert_index k (j # js) = (if index_le k j then k # j # js else j # insert_index k js)"

definition sort_indices :: "jsstring list \<Rightarrow> jsstring list" where
  "sort_indices ks = foldr insert_index ks []"

definition own_keys :: "(jsstring \<times> hval) list \<Rightarrow> jsstring list" where
  "own_keys fs =
     sort_indices (filter is_index (map fst fs)) @ filter (\<lambda>k. \<not> is_index k) (map fst fs)"

text \<open>The key of the element \<open>i\<close> of an array: its decimal numeral.\<close>

function index_key :: "nat \<Rightarrow> jsstring" where
  "index_key i = (if i < 10 then [48 + i] else index_key (i div 10) @ [48 + i mod 10])"
  by pat_completeness auto
termination
  by (relation "measure (\<lambda>i. i)") auto

declare index_key.simps [simp del]

text \<open>
  The enumerable keys found from the prototype \<open>proto\<close> on. A chain of prototypes has
  no cycle, so it is no longer than the store; the first argument bounds the walk.
\<close>

fun inherited_keys :: "nat \<Rightarrow> heap \<Rightarrow> hval option \<Rightarrow> jsstring list" where
  "inherited_keys 0 h proto = []"
| "inherited_keys (Suc n) h None = []"
| "inherited_keys (Suc n) h (Some (HRef index)) = [units ''ref'']"
| "inherited_keys (Suc n) h (Some (HPtr a)) =
     (case cell_at h a of
        None \<Rightarrow> []
      | Some (CArray vs) \<Rightarrow> map index_key [0..<length vs]
      | Some (CObject cls fs) \<Rightarrow> own_keys fs
      | Some (CDerived proto fs) \<Rightarrow>
          own_keys fs @ filter (\<lambda>k. \<not> has_own fs k) (inherited_keys n h proto))"
| "inherited_keys (Suc n) h (Some v) = []"

fun forin_keys :: "heap \<Rightarrow> cell \<Rightarrow> pkey list" where
  "forin_keys h (CArray vs) = map Elem [0..<length vs]"
| "forin_keys h (CObject cls fs) = map Member (own_keys fs)"
| "forin_keys h (CDerived proto fs) =
     map Member (own_keys fs @ filter (\<lambda>k. \<not> has_own fs k) (inherited_keys (length h) h proto))"

text \<open>
  \<open>value[key]\<close> for a key that for-in gave: the own member, or else the member of the
  nearest prototype that has one.
\<close>

fun inherited :: "nat \<Rightarrow> heap \<Rightarrow> hval option \<Rightarrow> jsstring \<Rightarrow> hval" where
  "inherited 0 h proto k = HAtom VUndefined"
| "inherited (Suc n) h None k = HAtom VUndefined"
| "inherited (Suc n) h (Some (HRef index)) k = (if k = units ''ref'' then HSymbol else HAtom VUndefined)"
| "inherited (Suc n) h (Some (HPtr a)) k =
     (case cell_at h a of
        None \<Rightarrow> HAtom VUndefined
      | Some (CArray vs) \<Rightarrow>
          (case map_of (zip (map index_key [0..<length vs]) vs) k of
             Some v \<Rightarrow> v
           | None \<Rightarrow> HAtom VUndefined)
      | Some (CObject cls fs) \<Rightarrow> (case map_of fs k of Some v \<Rightarrow> v | None \<Rightarrow> HAtom VUndefined)
      | Some (CDerived proto fs) \<Rightarrow>
          (case map_of fs k of Some v \<Rightarrow> v | None \<Rightarrow> inherited n h proto k))"
| "inherited (Suc n) h (Some v) k = HAtom VUndefined"

fun get :: "heap \<Rightarrow> cell \<Rightarrow> pkey \<Rightarrow> hval" where
  "get h (CArray vs) (Elem i) = (if i < length vs then vs ! i else HAtom VUndefined)"
| "get h (CObject cls fs) (Member k) =
     (case map_of fs k of Some v \<Rightarrow> v | None \<Rightarrow> HAtom VUndefined)"
| "get h (CDerived proto fs) (Member k) =
     (case map_of fs k of Some v \<Rightarrow> v | None \<Rightarrow> inherited (length h) h proto k)"
| "get h c p = HAtom VUndefined"

text \<open>
  \<open>value[key] = v\<close> for a key that for-in gave: an own member is overwritten, and a
  member found on a prototype (always one that can be written) becomes a new own
  member of the object.
\<close>

fun put :: "cell \<Rightarrow> pkey \<Rightarrow> hval \<Rightarrow> cell" where
  "put (CArray vs) (Elem i) v = CArray (vs[i := v])"
| "put (CObject cls fs) (Member k) v = CObject cls (AList.update k v fs)"
| "put (CDerived proto fs) (Member k) v = CDerived proto (AList.update k v fs)"
| "put c p v = c"

definition getprop :: "heap \<Rightarrow> nat \<Rightarrow> pkey \<Rightarrow> hval" where
  "getprop h a p = (case cell_at h a of Some c \<Rightarrow> get h c p | None \<Rightarrow> HAtom VUndefined)"

definition setprop :: "heap \<Rightarrow> nat \<Rightarrow> pkey \<Rightarrow> hval \<Rightarrow> heap" where
  "setprop h a p v = (case cell_at h a of Some c \<Rightarrow> h[a := put c p v] | None \<Rightarrow> h)"

definition array_length :: "heap \<Rightarrow> nat \<Rightarrow> nat" where
  "array_length h a = (case cell_at h a of Some (CArray vs) \<Rightarrow> length vs | _ \<Rightarrow> 0)"

subsection \<open>resolveRef\<close>

text \<open>
  The recursion of \<open>resolveRef\<close> follows the store, which can hold cycles, so it has
  fuel: one unit for each call and each round of a loop; \<open>None\<close> stands for a walk that
  does not end. An array is walked twice, by its indices and then by for-in, as in
  the source.
\<close>

function (sequential) resolveRef :: "nat \<Rightarrow> hval list \<Rightarrow> heap \<Rightarrow> hval \<Rightarrow> (hval \<times> heap) option"
  and array_loop :: "nat \<Rightarrow> hval list \<Rightarrow> heap \<Rightarrow> nat \<Rightarrow> nat \<Rightarrow> heap option"
  and forin_loop :: "nat \<Rightarrow> hval list \<Rightarrow> heap \<Rightarrow> nat \<Rightarrow> pkey list \<Rightarrow> heap option"
where
  "resolveRef 0 refs h v = None"
| "resolveRef (Suc fuel) refs h (HRef index) = Some (lookup refs index, h)"
| "resolveRef (Suc fuel) refs h (HAtom x) = Some (HAtom x, h)"
| "resolveRef (Suc fuel) refs h HSymbol = Some (HSymbol, h)"
| "resolveRef (Suc fuel) refs h (HPtr a) =
     (case cell_at h a of
        None \<Rightarrow> Some (HPtr a, h)
      | Some (CArray vs) \<Rightarrow>
          (case array_loop fuel refs h a 0 of
             None \<Rightarrow> None
           | Some h1 \<Rightarrow>
               (case forin_loop fuel refs h1 a (map Elem [0..<array_length h1 a]) of
                  None \<Rightarrow> None
                | Some h2 \<Rightarrow> Some (HPtr a, h2)))
      | Some c \<Rightarrow>
          (case forin_loop fuel refs h a (forin_keys h c) of
             None \<Rightarrow> None
           | Some h1 \<Rightarrow> Some (HPtr a, h1)))"
| "array_loop 0 refs h a i = None"
| "array_loop (Suc fuel) refs h a i =
     (if i < array_length h a then
        (case resolveRef fuel refs h (getprop h a (Elem i)) of
           None \<Rightarrow> None
         | Some (v, h1) \<Rightarrow> array_loop fuel refs (setprop h1 a (Elem i) v) a (i + 1))
      else Some h)"
| "forin_loop fuel refs h a [] = Some h"
| "forin_loop 0 refs h a (key # keys) = None"
| "forin_loop (Suc fuel) refs h a (key # keys) =
     (case resolveRef fuel refs h (getprop h a key) of
        None \<Rightarrow> None
      | Some (v, h1) \<Rightarrow> forin_loop fuel refs (setprop h1 a key v) a keys)"
  by pat_completeness auto
termination
  by (relation "measure (\<lambda>x. case x of
        Inl (fuel, refs, h, v) \<Rightarrow> 2 * fuel
      | Inr (Inl (fuel, refs, h, a, i)) \<Rightarrow> 2 * fuel
      | Inr (Inr (fuel, refs, h, a, keys)) \<Rightarrow> 2 * fuel)") auto

subsection \<open>deserialize\<close>

datatype outcome = Returned hval heap | Thrown error

definition deserialize :: "nat \<Rightarrow> env \<Rightarrow> string \<Rightarrow> outcome option" where
  "deserialize fuel env code =
     (case parseDocument fuel env code of
        None \<Rightarrow> None
      | Some (Throw e) \<Rightarrow> Some (Thrown e)
      | Some (Ok refs pos) \<Rightarrow>
          (case layout_list 0 refs of
             (roots, h) \<Rightarrow>
               (case resolveRef fuel roots h (lookup roots 0) of
                  None \<Rightarrow> None
                | Some (v, h1) \<Rightarrow> Some (Returned v h1))))"

text \<open>
  A call with no options, on an engine that compiles every pattern: \<open>mapClasses\<close> is
  \<open>{}\<close>, where a lookup finds what \<open>Object.prototype\<close> has under the name. Of the names
  that \<open>parseName\<close> can read these are \<open>constructor\<close> (the function \<open>Object\<close>) and six
  methods, which are functions with no \<open>prototype\<close>.
\<close>

definition no_options :: "string \<Rightarrow> class_entry" where
  "no_options name =
     (if name = ''constructor'' then ObjectClass
      else if name \<in> set [''hasOwnProperty'', ''isPrototypeOf'', ''propertyIsEnumerable'',
                ''toLocaleString'', ''toString'', ''valueOf''] then NotAClass
      else Absent)"

definition plain_env :: env where
  "plain_env = \<lparr>classes = no_options, regexp_ok = (\<lambda>source. True)\<rparr>"

subsection \<open>Notions used by the claims\<close>

text \<open>The six literal keywords and the value each stands for.\<close>

definition literal_of :: "string \<Rightarrow> atom option" where
  "literal_of name =
     (if name = ''NaN'' then Some (VNumber NaN)
      else if name = ''Infinity'' then Some (VNumber (Infinity False))
      else if name = ''undefined'' then Some VUndefined
      else if name = ''null'' then Some VNull
      else if name = ''true'' then Some (VBool True)
      else if name = ''false'' then Some (VBool False)
      else None)"

text \<open>No object of the tree has the prototype of a class named by a keyword.\<close>

fun no_keyword_tag :: "tree \<Rightarrow> bool"
  and no_keyword_tags :: "tree list \<Rightarrow> bool"
  and no_keyword_members :: "(jsstring \<times> tree) list \<Rightarrow> bool"
where
  "no_keyword_tag (TAtom a) = True"
| "no_keyword_tag (TRef index) = True"
| "no_keyword_tag (TArray ts) = no_keyword_tags ts"
| "no_keyword_tag (TObject cls ms) =
     ((case cls of None \<Rightarrow> True | Some name \<Rightarrow> literal_of name = None) \<and> no_keyword_members ms)"
| "no_keyword_tag (TDerived None ms) = no_keyword_members ms"
| "no_keyword_tag (TDerived (Some t) ms) = (no_keyword_tag t \<and> no_keyword_members ms)"
| "no_keyword_tags [] = True"
| "no_keyword_tags (t # ts) = (no_keyword_tag t \<and> no_keyword_tags ts)"
| "no_keyword_members [] = True"
| "no_keyword_members ((k, t) # ms) = (no_keyword_tag t \<and> no_keyword_members ms)"

text \<open>
  The text of a pattern between the slashes: no slash except after a backslash, and
  no backslash as the last character.
\<close>

fun pattern_text :: "string \<Rightarrow> bool" where
  "pattern_text [] = True"
| "pattern_text [c] = (c \<noteq> CHR ''/'' \<and> c \<noteq> CHR 0x5C)"
| "pattern_text (c # d # ds) =
     (if c = CHR ''/'' then False
      else if c = CHR 0x5C then pattern_text ds
      else pattern_text (d # ds))"

definition flag_chars :: "char set" where
  "flag_chars = {CHR ''i'', CHR ''m'', CHR ''g''}"

text \<open>Options in which every name is a class.\<close>

definition every_class_env :: env where
  "every_class_env = \<lparr>classes = (\<lambda>name. Class), regexp_ok = (\<lambda>source. True)\<rparr>"

text \<open>
  A Number is the negative zero when the sign flag is set and every digit of the
  mantissa is 0.
\<close>

fun negative_zero :: "jsnumber \<Rightarrow> bool" where
  "negative_zero (Decimal isNeg text) =
     (isNeg \<and> list_all (\<lambda>c. c = CHR ''0'' \<or> c = CHR ''.'')
                (takeWhile (\<lambda>c. c \<noteq> CHR ''e'' \<and> c \<noteq> CHR ''E'') text))"
| "negative_zero x = False"

subsection \<open>The grammar of the format\<close>

text \<open>
  The characters that end a token, and a token in its context: \<open>buf\<close> holds \<open>tx\<close> from
  \<open>off\<close> on, followed by the end of the input or by a character that ends a token.
\<close>

definition delimiters :: "char set" where
  "delimiters = WS_CHARS \<union> set '',]}:;{''"

definition inert :: "char option \<Rightarrow> bool" where
  "inert c = (case c of None \<Rightarrow> True | Some ch \<Rightarrow> ch \<in> delimiters)"

definition holds :: "string \<Rightarrow> nat \<Rightarrow> string \<Rightarrow> bool" where
  "holds buf off tx =
     ((\<forall>p < length tx. peek buf (off + p) = Some (tx ! p)) \<and> inert (peek buf (off + length tx)))"

text \<open>The characters of a name after its first letter.\<close>

definition ident_char :: "char \<Rightarrow> bool" where
  "ident_char c = (is_letter (of_char c) \<or> 48 \<le> (of_char c :: nat) \<and> (of_char c :: nat) \<le> 57
      \<or> (of_char c :: nat) = 95)"

text \<open>A value with no part: an atom or a reference function.\<close>

fun leaf :: "tree \<Rightarrow> bool" where
  "leaf (TAtom a) = True"
| "leaf (TRef index) = True"
| "leaf t = False"

text \<open>
  The text of a document as the grammar of the format builds it, with the whitespace
  written between the tokens kept in the tree. \<open>Token b t a\<close> is a reference, string,
  regular expression, number or keyword with the text \<open>t\<close>; \<open>ArrayS b i xs a\<close> is an array
  of the elements \<open>xs\<close>; \<open>ObjectS b tag i ms a\<close> is an object with the members \<open>ms\<close> and the
  class name \<open>tag\<close>, empty for an object with no class. In each, \<open>b\<close> is the whitespace
  before the value and \<open>a\<close> the whitespace after it, \<open>i\<close> the whitespace after the opening
  bracket. \<open>Key kb kt ka\<close> is the key of a member: the string \<open>kt\<close> with the whitespace \<open>kb\<close>
  before it and \<open>ka\<close> between it and the colon. A class name stands right before its
  brace: the tree has no whitespace between the two.

  \<open>render\<close> is the text of a value with its whitespace, \<open>core\<close> the text from its first to
  its last token, \<open>render_doc\<close> the text of a document, its statements separated by \<open>;\<close>.
  \<open>strip\<close> takes all whitespace out of a tree and leaves its tokens.
\<close>

datatype keysyn = Key string string string

datatype cst =
    Token string string string
  | ArrayS string string "cst list" string
  | ObjectS string string string "(keysyn \<times> cst) list" string

fun sbefore :: "cst \<Rightarrow> string" where
  "sbefore (Token b t a) = b"
| "sbefore (ArrayS b i xs a) = b"
| "sbefore (ObjectS b tag i ms a) = b"

fun safter :: "cst \<Rightarrow> string" where
  "safter (Token b t a) = a"
| "safter (ArrayS b i xs a) = a"
| "safter (ObjectS b tag i ms a) = a"

fun sep_by :: "char \<Rightarrow> string list \<Rightarrow> string" where
  "sep_by c [] = []"
| "sep_by c (x # xs) = x @ concat (map (\<lambda>y. c # y) xs)"

fun keytext :: "keysyn \<Rightarrow> string" where
  "keytext (Key kb kt ka) = kb @ kt @ ka"

fun core :: "cst \<Rightarrow> string" where
  "core (Token b t a) = t"
| "core (ArrayS b i xs a) =
     ''['' @ i @ sep_by (CHR '','') (map (\<lambda>x. sbefore x @ core x @ safter x) xs) @ '']''"
| "core (ObjectS b tag i ms a) =
     tag @ ''{'' @ i
       @ sep_by (CHR '','') (map (\<lambda>(k, x). keytext k @ '':'' @ sbefore x @ core x @ safter x) ms)
       @ ''}''"

definition render :: "cst \<Rightarrow> string" where
  "render s = sbefore s @ core s @ safter s"

definition render_doc :: "cst list \<Rightarrow> string" where
  "render_doc d = sep_by (CHR '';'') (map render d)"

fun strip_key :: "keysyn \<Rightarrow> keysyn" where
  "strip_key (Key kb kt ka) = Key [] kt []"

fun strip :: "cst \<Rightarrow> cst" where
  "strip (Token b t a) = Token [] t []"
| "strip (ArrayS b i xs a) = ArrayS [] [] (map strip xs) []"
| "strip (ObjectS b tag i ms a) = ObjectS [] tag [] (map (\<lambda>(k, x). (strip_key k, strip x)) ms) []"

text \<open>
  The value of a token and of a key: what \<open>parseJson\<close> and \<open>parseString\<close> return on the
  text of the token alone.
\<close>

definition token_value :: "env \<Rightarrow> string \<Rightarrow> tree" where
  "token_value env t =
     (case parseJson (Suc (length t)) env t 0 of Some (Ok v p) \<Rightarrow> v | _ \<Rightarrow> TAtom VUndefined)"

fun key_value :: "keysyn \<Rightarrow> jsstring" where
  "key_value (Key kb kt ka) =
     (case parseString (length kt) kt 0 of Some (Ok k p) \<Rightarrow> k | _ \<Rightarrow> [])"

text \<open>
  The value of a piece of syntax, built as the parser builds it: the members of an
  object are assigned in the order written. \<open>None\<close> stands for the TypeError of an
  assignment or of a name that is no class.
\<close>

fun svalue :: "env \<Rightarrow> cst \<Rightarrow> tree option"
  and svalues :: "env \<Rightarrow> cst list \<Rightarrow> tree list option"
  and smembers :: "env \<Rightarrow> tree \<Rightarrow> (keysyn \<times> cst) list \<Rightarrow> tree option"
where
  "svalue env (Token b t a) = Some (token_value env t)"
| "svalue env (ArrayS b i xs a) =
     (case svalues env xs of None \<Rightarrow> None | Some vs \<Rightarrow> Some (TArray vs))"
| "svalue env (ObjectS b tag i ms a) =
     (case smembers env (TObject None []) ms of
        None \<Rightarrow> None
      | Some obj \<Rightarrow>
          if tag = [] then Some obj
          else
            (case classes env tag of
               Absent \<Rightarrow> Some obj
             | NotAClass \<Rightarrow> None
             | NullClass \<Rightarrow> Some (setPrototypeOf_null obj)
             | ObjectClass \<Rightarrow> Some (setPrototypeOf_Object obj)
             | Class \<Rightarrow> Some (setPrototypeOf obj tag)))"
| "svalues env [] = Some []"
| "svalues env (x # xs) =
     (case svalue env x of
        None \<Rightarrow> None
      | Some v \<Rightarrow> (case svalues env xs of None \<Rightarrow> None | Some vs \<Rightarrow> Some (v # vs)))"
| "smembers env obj [] = Some obj"
| "smembers env obj ((k, x) # ms) =
     (case svalue env x of
        None \<Rightarrow> None
      | Some v \<Rightarrow>
          (case assign (key_value k) v obj of
             None \<Rightarrow> None
           | Some obj1 \<Rightarrow> smembers env obj1 ms))"

text \<open>
  The trees of the grammar: every piece of whitespace is whitespace; a token is a text
  that \<open>parseJson\<close> reads to its end as an atom or a reference; a key is a text that
  starts with a double quote and that \<open>parseString\<close> reads to its end; a class name is
  a name that is no keyword.
\<close>

definition blank :: "string \<Rightarrow> bool" where
  "blank s = (set s \<subseteq> WS_CHARS)"

definition wf_token :: "env \<Rightarrow> string \<Rightarrow> bool" where
  "wf_token env t =
     (t \<noteq> [] \<and> hd t \<notin> WS_CHARS \<and> hd t \<noteq> CHR ''{'' \<and> hd t \<noteq> CHR ''['' \<and>
      (case parseJson (Suc (length t)) env t 0 of
         Some (Ok v p) \<Rightarrow> p = length t \<and> leaf v
       | _ \<Rightarrow> False))"

fun wf_key :: "keysyn \<Rightarrow> bool" where
  "wf_key (Key kb kt ka) =
     (blank kb \<and> blank ka \<and> kt \<noteq> [] \<and> hd kt = CHR 0x22 \<and>
      (case parseString (length kt) kt 0 of Some (Ok k p) \<Rightarrow> p = length kt | _ \<Rightarrow> False))"

definition wf_tag :: "string \<Rightarrow> bool" where
  "wf_tag tag = (tag = [] \<or> parseName tag 0 = (tag, length tag) \<and> literal_of tag = None)"

fun wf_value :: "env \<Rightarrow> cst \<Rightarrow> bool" where
  "wf_value env (Token b t a) = (blank b \<and> blank a \<and> wf_token env t)"
| "wf_value env (ArrayS b i xs a) = (blank b \<and> blank i \<and> blank a \<and> (\<forall>x \<in> set xs. wf_value env x))"
| "wf_value env (ObjectS b tag i ms a) =
     (blank b \<and> blank i \<and> blank a \<and> wf_tag tag \<and> (\<forall>(k, x) \<in> set ms. wf_key k \<and> wf_value env x))"

text \<open>
  The rest of a list of elements or statements, each after its separator, and the
  same for the members of an object.
\<close>

abbreviation etail :: "char \<Rightarrow> cst list \<Rightarrow> string" where
  "etail c xs \<equiv> concat (map (\<lambda>y. c # render y) xs)"

abbreviation mrender :: "keysyn \<times> cst \<Rightarrow> string" where
  "mrender m \<equiv> (case m of (k, x) \<Rightarrow> keytext k @ '':'' @ sbefore x @ core x @ safter x)"

abbreviation mtail :: "(keysyn \<times> cst) list \<Rightarrow> string" where
  "mtail ms \<equiv> concat (map (\<lambda>y. CHR '','' # mrender y) ms)"

text \<open>
  What may stand after the last statement of a document: the end of the text, or a
  character that is neither whitespace nor \<open>;\<close>, and that ends the last token when no
  whitespace comes between.
\<close>

definition clean_end :: "cst list \<Rightarrow> string \<Rightarrow> bool" where
  "clean_end d rest =
     ((d = [] \<or> inert (peek (safter (last d) @ rest) 0)) \<and>
      \<not> has WS_CHARS (peek rest 0) \<and> peek rest 0 \<noteq> Some CHR '';'')"

section \<open>Properties of the scanner\<close>

lemma peek_append_left: "peek (pre @ s) (length pre + i) = peek s i"
  by (simp add: peek_def)

lemma peek_end: "length buf \<le> pos \<Longrightarrow> peek buf pos = None"
  by (simp add: peek_def)

lemma white_stop: "\<not> has WS_CHARS (peek buf pos) \<Longrightarrow> white buf pos = pos"
  by (subst white.simps) simp

lemma white_step: "has WS_CHARS (peek buf pos) \<Longrightarrow> white buf pos = white buf (pos + 1)"
  by (subst white.simps) simp

lemma white_run:
  "set ws \<subseteq> WS_CHARS \<Longrightarrow>
     white (pre @ ws @ rest) (length pre) = white (pre @ ws @ rest) (length pre + length ws)"
proof (induction ws arbitrary: pre)
  case Nil
  then show ?case by simp
next
  case (Cons c ws)
  have "has WS_CHARS (peek (pre @ (c # ws) @ rest) (length pre))"
    using Cons.prems by (simp add: peek_def has_def)
  then have "white (pre @ (c # ws) @ rest) (length pre)
      = white ((pre @ [c]) @ ws @ rest) (length (pre @ [c]))"
    by (simp add: white_step)
  also have "\<dots> = white ((pre @ [c]) @ ws @ rest) (length (pre @ [c]) + length ws)"
    using Cons.prems by (intro Cons.IH) simp
  finally show ?case by simp
qed

lemma white_all: "set ws \<subseteq> WS_CHARS \<Longrightarrow> white ws 0 = length ws"
  using white_run [of ws "[]" "[]"] by (simp add: white_stop peek_def has_def)

lemma parseName_end: "parseName buf (length buf) = ([], length buf)"
  by (simp add: parseName_def peek_def)


section \<open>More fuel changes no result\<close>

declare parseString_loop.simps(2) [simp del]
declare parseRegExp_loop.simps(2) [simp del]
declare parseJson.simps(2) [simp del] parseArray.simps(2) [simp del] parseArray_loop.simps(2) [simp del]
  parseObject.simps(2) [simp del] parseObject_loop.simps(2) [simp del]

lemma parseString_loop_Suc:
  "parseString_loop n buf pos res = Some r \<Longrightarrow> parseString_loop (Suc n) buf pos res = Some r"
proof (induction n arbitrary: pos res)
  case 0
  then show ?case by simp
next
  case (Suc n)
  from Suc.prems show ?case
    apply (subst parseString_loop.simps(2))
    apply (subst (asm) parseString_loop.simps(2))
    apply (auto split: if_splits result.splits option.splits intro: Suc.IH)
    done
qed

lemma parseString_Suc:
  "parseString n buf pos = Some r \<Longrightarrow> parseString (Suc n) buf pos = Some r"
  by (simp add: parseString_def parseString_loop_Suc)

lemma parseRegExp_loop_Suc:
  "parseRegExp_loop n env buf pos res = Some r \<Longrightarrow> parseRegExp_loop (Suc n) env buf pos res = Some r"
proof (induction n arbitrary: pos res)
  case 0
  then show ?case by simp
next
  case (Suc n)
  from Suc.prems show ?case
    apply (subst parseRegExp_loop.simps(2))
    apply (subst (asm) parseRegExp_loop.simps(2))
    apply (auto split: if_splits prod.splits intro: Suc.IH)
    done
qed

lemma parseRegExp_Suc:
  "parseRegExp n env buf pos = Some r \<Longrightarrow> parseRegExp (Suc n) env buf pos = Some r"
  by (auto simp: parseRegExp_def parseRegExp_loop_Suc split: if_splits)

lemma parse_Suc:
  "(\<forall>pos r. parseJson n env buf pos = Some r \<longrightarrow> parseJson (Suc n) env buf pos = Some r) \<and>
   (\<forall>pos r. parseArray n env buf pos = Some r \<longrightarrow> parseArray (Suc n) env buf pos = Some r) \<and>
   (\<forall>pos res r. parseArray_loop n env buf pos res = Some r
       \<longrightarrow> parseArray_loop (Suc n) env buf pos res = Some r) \<and>
   (\<forall>pos r. parseObject n env buf pos = Some r \<longrightarrow> parseObject (Suc n) env buf pos = Some r) \<and>
   (\<forall>pos res r. parseObject_loop n env buf pos res = Some r
       \<longrightarrow> parseObject_loop (Suc n) env buf pos res = Some r)"
proof (induction n)
  case 0
  show ?case by simp
next
  case (Suc n)
  then have J: "\<And>pos r. parseJson n env buf pos = Some r \<Longrightarrow> parseJson (Suc n) env buf pos = Some r"
    and A: "\<And>pos r. parseArray n env buf pos = Some r \<Longrightarrow> parseArray (Suc n) env buf pos = Some r"
    and AL: "\<And>pos res r. parseArray_loop n env buf pos res = Some r
       \<Longrightarrow> parseArray_loop (Suc n) env buf pos res = Some r"
    and O: "\<And>pos r. parseObject n env buf pos = Some r \<Longrightarrow> parseObject (Suc n) env buf pos = Some r"
    and OL: "\<And>pos res r. parseObject_loop n env buf pos res = Some r
       \<Longrightarrow> parseObject_loop (Suc n) env buf pos res = Some r"
    by blast+
  note S = parseString_Suc [of n buf] and R = parseRegExp_Suc [of n env buf]
  have 1: "parseJson (Suc (Suc n)) env buf pos = Some r" if "parseJson (Suc n) env buf pos = Some r" for pos r
    using that
    apply (subst parseJson.simps(2))
    apply (subst (asm) parseJson.simps(2))
    apply (auto simp: Let_def split: if_splits prod.splits option.splits result.splits dest!: O A S R)
    done
  have 2: "parseArray (Suc (Suc n)) env buf pos = Some r" if "parseArray (Suc n) env buf pos = Some r" for pos r
    using that
    apply (subst parseArray.simps(2))
    apply (subst (asm) parseArray.simps(2))
    apply (auto simp: Let_def split: if_splits prod.splits option.splits result.splits dest!: J AL)
    done
  have 3: "parseArray_loop (Suc (Suc n)) env buf pos res = Some r"
    if "parseArray_loop (Suc n) env buf pos res = Some r" for pos res r
    using that
    apply (subst parseArray_loop.simps(2))
    apply (subst (asm) parseArray_loop.simps(2))
    apply (auto simp: Let_def split: if_splits prod.splits option.splits result.splits dest!: J AL)
    done
  have 4: "parseObject (Suc (Suc n)) env buf pos = Some r" if "parseObject (Suc n) env buf pos = Some r" for pos r
    using that
    apply (subst parseObject.simps(2))
    apply (subst (asm) parseObject.simps(2))
    apply (auto simp: Let_def split: if_splits prod.splits option.splits result.splits dest!: OL)
    done
  have 5: "parseObject_loop (Suc (Suc n)) env buf pos res = Some r"
    if "parseObject_loop (Suc n) env buf pos res = Some r" for pos res r
    using that
    apply (subst parseObject_loop.simps(2))
    apply (subst (asm) parseObject_loop.simps(2))
    apply (auto simp: Let_def split: if_splits prod.splits option.splits result.splits dest!: J OL S)
    done
  from 1 2 3 4 5 show ?case by blast
qed

declare statements.simps(2) [simp del]
declare resolveRef.simps(2-5) [simp del] array_loop.simps(2) [simp del] forin_loop.simps(3) [simp del]

lemma parseJson_Suc:
  "parseJson n env buf pos = Some r \<Longrightarrow> parseJson (Suc n) env buf pos = Some r"
  using parse_Suc by blast


lemma statements_Suc:
  "statements n env buf pos refs = Some r \<Longrightarrow> statements (Suc n) env buf pos refs = Some r"
proof (induction n arbitrary: pos refs)
  case 0
  then show ?case by simp
next
  case (Suc n)
  note J = parseJson_Suc [of n env buf]
  from Suc.prems show ?case
    apply (subst statements.simps(2))
    apply (subst (asm) statements.simps(2))
    apply (auto split: if_splits option.splits result.splits dest!: J Suc.IH)
    done
qed

lemma parseDocument_Suc:
  "parseDocument n env buf = Some r \<Longrightarrow> parseDocument (Suc n) env buf = Some r"
  unfolding parseDocument_def
  by (auto split: option.splits result.splits if_splits
        dest!: statements_Suc [of n] parseJson_Suc [of n])

lemma parseDocument_mono:
  "parseDocument n env buf = Some r \<Longrightarrow> n \<le> m \<Longrightarrow> parseDocument m env buf = Some r"
  by (induction m) (auto simp: le_Suc_eq intro: parseDocument_Suc)

lemma resolve_Suc:
  "(\<forall>h v r. resolveRef n refs h v = Some r \<longrightarrow> resolveRef (Suc n) refs h v = Some r) \<and>
   (\<forall>h a i r. array_loop n refs h a i = Some r \<longrightarrow> array_loop (Suc n) refs h a i = Some r) \<and>
   (\<forall>h a ks r. forin_loop n refs h a ks = Some r \<longrightarrow> forin_loop (Suc n) refs h a ks = Some r)"
proof (induction n)
  case 0
  have "forin_loop (Suc 0) refs h a ks = Some r" if "forin_loop 0 refs h a ks = Some r" for h a ks r
    using that by (cases ks) simp_all
  then show ?case by simp
next
  case (Suc n)
  then have R: "\<And>h v r. resolveRef n refs h v = Some r \<Longrightarrow> resolveRef (Suc n) refs h v = Some r"
    and A: "\<And>h a i r. array_loop n refs h a i = Some r \<Longrightarrow> array_loop (Suc n) refs h a i = Some r"
    and F: "\<And>h a ks r. forin_loop n refs h a ks = Some r \<Longrightarrow> forin_loop (Suc n) refs h a ks = Some r"
    by blast+
  have 1: "resolveRef (Suc (Suc n)) refs h v = Some r" if "resolveRef (Suc n) refs h v = Some r" for h v r
  proof (cases v)
    case (HPtr a)
    with that show ?thesis
      apply (simp only:)
      apply (subst resolveRef.simps(5))
      apply (subst (asm) resolveRef.simps(5))
      apply (auto split: option.splits cell.splits dest!: A F)
      done
  qed (use that in \<open>simp_all add: resolveRef.simps\<close>)
  have 2: "array_loop (Suc (Suc n)) refs h a i = Some r" if "array_loop (Suc n) refs h a i = Some r" for h a i r
    using that
    apply (subst array_loop.simps(2))
    apply (subst (asm) array_loop.simps(2))
    apply (auto split: if_splits option.splits dest!: R A)
    done
  have 3: "forin_loop (Suc (Suc n)) refs h a ks = Some r" if "forin_loop (Suc n) refs h a ks = Some r" for h a ks r
  proof (cases ks)
    case (Cons k ks')
    with that show ?thesis
      apply (simp only:)
      apply (subst forin_loop.simps(3))
      apply (subst (asm) forin_loop.simps(3))
      apply (auto split: option.splits dest!: R F)
      done
  qed (use that in simp)
  from 1 2 3 show ?case by blast
qed

lemma resolveRef_Suc:
  "resolveRef n refs h v = Some r \<Longrightarrow> resolveRef (Suc n) refs h v = Some r"
  using resolve_Suc by blast

lemma deserialize_Suc:
  "deserialize n env code = Some r \<Longrightarrow> deserialize (Suc n) env code = Some r"
  unfolding deserialize_def
  by (auto split: option.splits result.splits prod.splits
        dest!: parseDocument_Suc [of n] resolveRef_Suc [of n])

lemma deserialize_mono:
  "deserialize n env code = Some r \<Longrightarrow> deserialize (n + k) env code = Some r"
  by (induction k) (auto intro: deserialize_Suc)

section \<open>Strings that do not end\<close>

lemma peek_drop: "pos \<le> p \<Longrightarrow> peek buf p = Some c \<Longrightarrow> c \<in> set (drop pos buf)"
  by (auto simp: peek_def in_set_conv_nth split: if_splits intro!: exI [of _ "p - pos"])

lemma parseString_loop_no_quote:
  "CHR 0x22 \<notin> set (drop pos buf) \<Longrightarrow> CHR 0x5C \<notin> set (drop pos buf) \<Longrightarrow>
     parseString_loop fuel buf pos res = None"
proof (induction fuel arbitrary: pos res)
  case 0
  show ?case by simp
next
  case (Suc fuel)
  have a: "peek buf pos \<noteq> Some (CHR 0x22)" and b: "peek buf pos \<noteq> Some (CHR 0x5C)"
    using Suc.prems peek_drop [of pos pos buf] by auto
  have "set (drop (pos + 1) buf) \<subseteq> set (drop pos buf)"
    by (metis add.commute drop_drop set_drop_subset)
  with Suc.prems have "parseString_loop fuel buf (pos + 1) (append_char res (peek buf pos)) = None"
    by (intro Suc.IH) auto
  with a b show ?case
    by (subst parseString_loop.simps(2)) simp
qed

text \<open>
  Claim C1 (an unterminated string fails with a SyntaxError at the end of the text).
  The source does not do this: in \<open>"abc\<close> the loop of \<open>parseString\<close> reads past the end
  of the text, appends the text "undefined" for each missing character and never
  leaves, whatever the fuel. Only when the text ends right after a backslash does the
  check of the escape raise the SyntaxError for the end of the text, at position 5 in
  \<open>"abc\\<close>.
\<close>

theorem unterminated_string_never_returns:
  \<open>deserialize fuel env ''"abc'' = None \<and>
   deserialize (9 + k) env (''"abc'' @ [CHR 0x5C]) = Some (Thrown (SyntaxError None 5))\<close>
proof
  show \<open>deserialize fuel env ''"abc'' = None\<close>
  proof (cases fuel)
    case 0
    then show ?thesis by (simp add: deserialize_def parseDocument_def)
  next
    case (Suc n)
    have w: \<open>white ''"abc'' 0 = 0\<close>
      by (rule white_stop) (simp add: peek_def has_def WS_CHARS_def)
    have \<open>parseString n ''"abc'' 0 = None\<close>
      unfolding parseString_def by (rule parseString_loop_no_quote) simp_all
    then have \<open>parseJson (Suc n) env ''"abc'' 0 = None\<close>
      by (subst parseJson.simps(2)) (simp add: w Let_def peek_def)
    then show ?thesis
      by (simp add: Suc deserialize_def parseDocument_def)
  qed
  show \<open>deserialize (9 + k) env (''"abc'' @ [CHR 0x5C]) = Some (Thrown (SyntaxError None 5))\<close>
    by (rule deserialize_mono) code_simp
qed

text \<open>
  Claim C3 (a member key that is not a double-quoted string fails with a SyntaxError at
  the offending character). The source does not do this: \<open>parseObject\<close> calls
  \<open>parseString\<close>, which steps over the first character of the key without looking at
  it. So \<open>{a":1}\<close> is accepted, as an object with the empty key, and in \<open>{a:1}\<close> the
  scan for the closing quote runs past the end of the text and never returns.
\<close>

theorem bareword_key_not_rejected:
  \<open>deserialize (9 + k) env ''{a":1}'' =
     Some (Returned (HPtr 0) [CObject None [([], HAtom (VNumber (Decimal False ''1'')))]]) \<and>
   deserialize fuel env ''{a:1}'' = None\<close>
proof
  show \<open>deserialize (9 + k) env ''{a":1}'' =
     Some (Returned (HPtr 0) [CObject None [([], HAtom (VNumber (Decimal False ''1'')))]])\<close>
    by (rule deserialize_mono) code_simp
  have w0: \<open>white ''{a:1}'' 0 = 0\<close>
    by (rule white_stop) (simp add: peek_def has_def WS_CHARS_def)
  have w1: \<open>white ''{a:1}'' (Suc 0) = Suc 0\<close>
    by (subst white_stop) (simp_all add: peek_def has_def WS_CHARS_def)
  have s: \<open>parseString n ''{a:1}'' (Suc 0) = None\<close> for n
    unfolding parseString_def by (rule parseString_loop_no_quote) simp_all
  have l: \<open>parseObject_loop n env ''{a:1}'' (Suc 0) (TObject None []) = None\<close> for n
    by (cases n) (simp_all add: parseObject_loop.simps(2) s)
  have ob: \<open>parseObject n env ''{a:1}'' 0 = None\<close> for n
    by (cases n) (simp_all add: parseObject.simps(2) Let_def w1 l peek_def)
  have \<open>parseJson n env ''{a:1}'' 0 = None\<close> for n
    by (cases n) (simp_all add: parseJson.simps(2) Let_def w0 ob peek_def)
  then show \<open>deserialize fuel env ''{a:1}'' = None\<close>
    by (simp add: deserialize_def parseDocument_def)
qed

section \<open>Cycles\<close>

text \<open>
  Claim C5: deserializing \<open>{"self":$0}\<close> ends, with every fuel from 20 on, and returns
  the address of an object whose member \<open>self\<close> is that same address: the object
  itself, not a copy.
\<close>

theorem self_reference_is_identity:
  \<open>deserialize (20 + k) env ''{"self":$0}'' =
     Some (Returned (HPtr 0) [CObject None [(units ''self'', HPtr 0)]]) \<and>
   getprop [CObject None [(units ''self'', HPtr 0)]] 0 (Member (units ''self'')) = HPtr 0\<close>
proof
  show \<open>deserialize (20 + k) env ''{"self":$0}'' =
     Some (Returned (HPtr 0) [CObject None [(units ''self'', HPtr 0)]])\<close>
    by (rule deserialize_mono) code_simp
  show \<open>getprop [CObject None [(units ''self'', HPtr 0)]] 0 (Member (units ''self'')) = HPtr 0\<close>
    by (simp add: getprop_def cell_at_def)
qed

section \<open>Texts with no value\<close>

text \<open>
  Claim C9: on the empty text and on a text of whitespace only, \<open>deserialize\<close> throws
  the SyntaxError for the end of the text (no character, position the length of the
  text) as soon as it has any fuel, and with no fuel at all it returns no value.
\<close>

theorem whitespace_only_is_unexpected_end:
  "set ws \<subseteq> WS_CHARS \<Longrightarrow>
     deserialize (Suc fuel) env ws = Some (Thrown (SyntaxError None (length ws))) \<and>
     deserialize n env ws \<noteq> Some (Returned v h)"
proof -
  assume ws: "set ws \<subseteq> WS_CHARS"
  have "parseJson (Suc m) env ws 0 = Some (Throw (SyntaxError None (length ws)))" for m
    by (subst parseJson.simps(2))
       (simp add: white_all [OF ws] peek_end has_def parseName_end error_def)
  then have *: "deserialize (Suc m) env ws = Some (Thrown (SyntaxError None (length ws)))" for m
    by (simp add: deserialize_def parseDocument_def)
  have "deserialize n env ws \<noteq> Some (Returned v h)"
  proof (cases n)
    case 0
    then show ?thesis by (simp add: deserialize_def parseDocument_def)
  next
    case (Suc m)
    then show ?thesis by (simp add: *)
  qed
  with * show ?thesis by simp
qed

theorem whitespace_only_is_unexpected_end_witness:
  "set [CHR '' '', CHR 0x09, CHR 0x0A] \<subseteq> WS_CHARS \<and>
   deserialize (Suc 0) plain_env [CHR '' '', CHR 0x09, CHR 0x0A] = Some (Thrown (SyntaxError None 3)) \<and>
   deserialize (Suc 0) plain_env [] = Some (Thrown (SyntaxError None 0))"
  using whitespace_only_is_unexpected_end [of "[CHR '' '', CHR 0x09, CHR 0x0A]" 0 plain_env]
    whitespace_only_is_unexpected_end [of "[]" 0 plain_env]
  by (simp add: WS_CHARS_def)

section \<open>Keywords\<close>

lemma parseName_letter:
  "parseName buf pos = (name, pos1) \<Longrightarrow> name \<noteq> [] \<Longrightarrow>
     \<exists>c. peek buf pos = Some c \<and> is_letter (of_char c)"
  by (auto simp: parseName_def split: option.splits if_splits)

lemma letter_not_special:
  "is_letter (of_char c) \<Longrightarrow>
     c \<noteq> CHR ''$'' \<and> c \<noteq> CHR ''{'' \<and> c \<noteq> CHR ''['' \<and> c \<noteq> CHR ''/'' \<and> c \<noteq> CHR 0x22
     \<and> c \<noteq> CHR ''-'' \<and> c \<notin> NUM_CHARS"
  by (auto simp: is_letter_def NUM_CHARS_def)

lemma keyword_literal:
  assumes "parseName buf (white buf pos) = (name, pos1)" and "literal_of name = Some a"
  shows "parseJson (Suc fuel) env buf pos = Some (Ok (TAtom a) pos1)"
proof -
  from assms(2) have "name \<noteq> []"
    by (auto simp: literal_of_def)
  with assms(1) obtain c where c: "peek buf (white buf pos) = Some c" "is_letter (of_char c)"
    using parseName_letter by blast
  note letter_not_special [OF c(2)]
  with c(1) assms show ?thesis
    by (subst parseJson.simps(2))
       (auto simp: Let_def has_def literal_of_def split: if_splits)
qed

lemma no_keyword_tags_append:
  "no_keyword_tags (xs @ ys) = (no_keyword_tags xs \<and> no_keyword_tags ys)"
  by (induction xs) auto

lemma no_keyword_members_update:
  "no_keyword_tag v \<Longrightarrow> no_keyword_members ms \<Longrightarrow> no_keyword_members (AList.update k v ms)"
  by (induction ms) auto

lemma parseRegExp_loop_atom:
  "parseRegExp_loop n env buf pos res = Some (Ok t p) \<Longrightarrow> \<exists>a. t = TAtom a"
proof (induction n arbitrary: pos res)
  case 0
  then show ?case by simp
next
  case (Suc n)
  from Suc.prems show ?case
    apply (subst (asm) parseRegExp_loop.simps(2))
    apply (auto simp: new_RegExp_def split: if_splits prod.splits dest: Suc.IH)
    done
qed

lemma parseRegExp_atom:
  "parseRegExp n env buf pos = Some (Ok t p) \<Longrightarrow> \<exists>a. t = TAtom a"
  by (auto simp: parseRegExp_def split: if_splits dest: parseRegExp_loop_atom)

lemma parseNumber_atom: "parseNumber buf pos = Ok t p \<Longrightarrow> \<exists>a. t = TAtom a"
  by (auto simp: parseNumber_def Let_def split: if_splits result.splits)

lemma no_keyword_members_of:
  "no_keyword_tag obj \<Longrightarrow> no_keyword_members (members_of obj)"
proof (cases obj)
  case (TDerived proto ms)
  then show "no_keyword_tag obj \<Longrightarrow> no_keyword_members (members_of obj)"
    by (cases proto) simp_all
qed simp_all

lemma no_keyword_setPrototypeOf:
  "no_keyword_tag obj \<Longrightarrow> literal_of name = None \<Longrightarrow> no_keyword_tag (setPrototypeOf obj name)"
proof (cases obj)
  case (TDerived proto ms)
  then show "no_keyword_tag obj \<Longrightarrow> literal_of name = None \<Longrightarrow> no_keyword_tag (setPrototypeOf obj name)"
    by (cases proto) simp_all
qed simp_all

lemma no_keyword_setPrototypeOf_null:
  "no_keyword_tag obj \<Longrightarrow> no_keyword_tag (setPrototypeOf_null obj)"
proof (cases obj)
  case (TDerived proto ms)
  then show "no_keyword_tag obj \<Longrightarrow> no_keyword_tag (setPrototypeOf_null obj)"
    by (cases proto) simp_all
qed simp_all

lemma no_keyword_setPrototypeOf_Object:
  "no_keyword_tag obj \<Longrightarrow> no_keyword_tag (setPrototypeOf_Object obj)"
proof (cases obj)
  case (TDerived proto ms)
  then show "no_keyword_tag obj \<Longrightarrow> no_keyword_tag (setPrototypeOf_Object obj)"
    by (cases proto) simp_all
qed simp_all

lemma no_keyword_set_prototype:
  "no_keyword_tag obj \<Longrightarrow> no_keyword_tag v \<Longrightarrow> no_keyword_tag (set_prototype obj v)"
  by (simp add: set_prototype_def no_keyword_members_of)

lemma no_keyword_assign:
  assumes "assign k v obj = Some obj'" and "no_keyword_tag v" and "no_keyword_tag obj"
  shows "no_keyword_tag obj'"
proof (cases obj)
  case (TObject cls ms)
  with assms show ?thesis
    using no_keyword_set_prototype [of obj v]
    by (auto simp: no_keyword_members_update split: if_splits slot.splits)
next
  case (TDerived proto ms)
  with assms show ?thesis
    using no_keyword_set_prototype [of obj v]
    by (cases proto) (auto simp: no_keyword_members_update split: if_splits slot.splits)
qed (use assms in auto)

lemma parse_no_keyword_tag:
  "(\<forall>pos t p. parseJson n env buf pos = Some (Ok t p) \<longrightarrow> no_keyword_tag t) \<and>
   (\<forall>pos t p. parseArray n env buf pos = Some (Ok t p) \<longrightarrow> no_keyword_tag t) \<and>
   (\<forall>pos res t p. parseArray_loop n env buf pos res = Some (Ok t p) \<longrightarrow> no_keyword_tags res
       \<longrightarrow> no_keyword_tag t) \<and>
   (\<forall>pos t p. parseObject n env buf pos = Some (Ok t p) \<longrightarrow> no_keyword_tag t) \<and>
   (\<forall>pos res t p. parseObject_loop n env buf pos res = Some (Ok t p) \<longrightarrow> no_keyword_tag res
       \<longrightarrow> no_keyword_tag t)"
proof (induction n)
  case 0
  show ?case by simp
next
  case (Suc n)
  then have J: "\<And>pos t p. parseJson n env buf pos = Some (Ok t p) \<Longrightarrow> no_keyword_tag t"
    and A: "\<And>pos t p. parseArray n env buf pos = Some (Ok t p) \<Longrightarrow> no_keyword_tag t"
    and AL: "\<And>pos res t p. parseArray_loop n env buf pos res = Some (Ok t p) \<Longrightarrow> no_keyword_tags res
       \<Longrightarrow> no_keyword_tag t"
    and O: "\<And>pos t p. parseObject n env buf pos = Some (Ok t p) \<Longrightarrow> no_keyword_tag t"
    and OL: "\<And>pos res t p. parseObject_loop n env buf pos res = Some (Ok t p) \<Longrightarrow> no_keyword_tag res
       \<Longrightarrow> no_keyword_tag t"
    by blast+
  have R: "parseRegExp n env buf pos = Some (Ok t p) \<Longrightarrow> no_keyword_tag t" for pos t p
    by (auto dest: parseRegExp_atom)
  have N: "parseNumber buf pos = Ok t p \<Longrightarrow> no_keyword_tag t" for pos t p
    by (auto dest: parseNumber_atom)
  have L: "literal_of name = None"
    if "name \<noteq> ''NaN''" "name \<noteq> ''Infinity''" "name \<noteq> ''undefined''" "name \<noteq> ''null''"
      "name \<noteq> ''true''" "name \<noteq> ''false''" for name
    using that by (simp add: literal_of_def)
  have 1: "no_keyword_tag t" if "parseJson (Suc n) env buf pos = Some (Ok t p)" for pos t p
    using that
    apply (subst (asm) parseJson.simps(2))
    apply (auto simp: Let_def parseRef_def split: if_splits prod.splits option.splits result.splits
         class_entry.splits dest!: O A R N
         intro!: no_keyword_setPrototypeOf no_keyword_setPrototypeOf_null
           no_keyword_setPrototypeOf_Object L)
    done
  have 2: "no_keyword_tag t" if "parseArray (Suc n) env buf pos = Some (Ok t p)" for pos t p
    using that
    apply (subst (asm) parseArray.simps(2))
    apply (auto simp: Let_def split: if_splits prod.splits option.splits result.splits dest!: J dest: AL)
    done
  have 3: "no_keyword_tag t"
    if "parseArray_loop (Suc n) env buf pos res = Some (Ok t p)" "no_keyword_tags res" for pos res t p
    using that
    apply (subst (asm) parseArray_loop.simps(2))
    apply (auto simp: Let_def no_keyword_tags_append split: if_splits prod.splits option.splits result.splits dest!: J dest: AL)
    done
  have 4: "no_keyword_tag t" if "parseObject (Suc n) env buf pos = Some (Ok t p)" for pos t p
    using that
    apply (subst (asm) parseObject.simps(2))
    apply (auto simp: Let_def split: if_splits prod.splits option.splits result.splits dest: OL)
    done
  have 5: "no_keyword_tag t"
    if "parseObject_loop (Suc n) env buf pos res = Some (Ok t p)" "no_keyword_tag res" for pos res t p
    using that
    apply (subst (asm) parseObject_loop.simps(2))
    apply (auto simp: Let_def split: if_splits prod.splits option.splits result.splits
         dest!: J dest: OL no_keyword_assign)
    done
  from 1 2 3 4 5 show ?case by blast
qed


text \<open>
  Claim C10: the six keywords are reserved. Whenever the name scanned at a value is a
  keyword, \<open>parseJson\<close> returns its literal and stops right after the name, whatever
  follows it and whatever the classes are; no object that the parser returns has the
  prototype of a class named by a keyword; and \<open>true{"x":1}\<close> is rejected at the brace,
  as input left over after the value \<open>true\<close>.
\<close>

theorem keywords_are_reserved:
  \<open>(parseName buf (white buf pos) = (name, pos1) \<and> literal_of name = Some a \<longrightarrow>
      parseJson (Suc fuel) env buf pos = Some (Ok (TAtom a) pos1)) \<and>
   (parseJson n env buf pos = Some (Ok t p) \<longrightarrow> no_keyword_tag t) \<and>
   deserialize (3 + k) env ''true{"x":1}'' = Some (Thrown (SyntaxError (Some CHR ''{'') 4))\<close>
proof (intro conjI impI)
  show "parseJson (Suc fuel) env buf pos = Some (Ok (TAtom a) pos1)"
    if "parseName buf (white buf pos) = (name, pos1) \<and> literal_of name = Some a"
    using that keyword_literal by blast
  show "no_keyword_tag t" if "parseJson n env buf pos = Some (Ok t p)"
    using that parse_no_keyword_tag by blast
  show \<open>deserialize (3 + k) env ''true{"x":1}'' = Some (Thrown (SyntaxError (Some CHR ''{'') 4))\<close>
    by (rule deserialize_mono) code_simp
qed

theorem keywords_are_reserved_witness:
  \<open>parseName ''true{"x":1}'' (white ''true{"x":1}'' 0) = (''true'', 4) \<and>
   literal_of ''true'' = Some (VBool True) \<and>
   parseJson (Suc 0) every_class_env ''true{"x":1}'' 0 = Some (Ok (TAtom (VBool True)) 4) \<and>
   parseJson 9 every_class_env ''Foo{"x":1}'' 0
     = Some (Ok (TObject (Some ''Foo'') [(units ''x'', TAtom (VNumber (Decimal False ''1'')))]) 10) \<and>
   no_keyword_tag (TObject (Some ''Foo'') [(units ''x'', TAtom (VNumber (Decimal False ''1'')))])\<close>
proof -
  have 1: \<open>parseName ''true{"x":1}'' (white ''true{"x":1}'' 0) = (''true'', 4)\<close>
    by code_simp
  have 2: \<open>literal_of ''true'' = Some (VBool True)\<close>
    by code_simp
  have 3: \<open>parseJson 9 every_class_env ''Foo{"x":1}'' 0
     = Some (Ok (TObject (Some ''Foo'') [(units ''x'', TAtom (VNumber (Decimal False ''1'')))]) 10)\<close>
    by code_simp
  from 1 2 3
    keywords_are_reserved [of \<open>''true{"x":1}''\<close> 0 \<open>''true''\<close> 4 \<open>VBool True\<close> 0 every_class_env]
    keywords_are_reserved [of \<open>''Foo{"x":1}''\<close> 0 _ _ _ _ every_class_env 9
      \<open>TObject (Some ''Foo'') [(units ''x'', TAtom (VNumber (Decimal False ''1'')))]\<close> 10]
  show ?thesis by blast
qed

section \<open>Numbers\<close>

lemma digits_step:
  "peek buf pos = Some c \<Longrightarrow> c \<in> NUM_CHARS \<Longrightarrow>
     digits buf pos res = digits buf (pos + 1) (res @ [c])"
  by (subst digits.simps) simp

lemma digits_stop: "\<not> has NUM_CHARS (peek buf pos) \<Longrightarrow> digits buf pos res = (res, pos)"
  by (subst digits.simps) (auto simp: has_def split: option.splits)

lemma peek_mid: "peek (pre @ c # rest) (length pre) = Some c"
  by (simp add: peek_def)

lemma digits_run:
  "set ds \<subseteq> NUM_CHARS \<Longrightarrow> \<not> has NUM_CHARS (peek (pre @ ds @ rest) (length pre + length ds)) \<Longrightarrow>
     digits (pre @ ds @ rest) (length pre) res = (res @ ds, length pre + length ds)"
proof (induction ds arbitrary: pre res)
  case Nil
  then show ?case by (simp add: digits_stop)
next
  case (Cons d ds)
  have "digits (pre @ (d # ds) @ rest) (length pre) res
      = digits ((pre @ [d]) @ ds @ rest) (length (pre @ [d])) (res @ [d])"
    using Cons.prems(1) by (simp add: digits_step [where c = d] peek_mid)
  also have "\<dots> = ((res @ [d]) @ ds, length (pre @ [d]) + length ds)"
    using Cons.prems by (intro Cons.IH) simp_all
  finally show ?case by simp
qed

lemma digits1_run:
  assumes "ds \<noteq> []" "set ds \<subseteq> NUM_CHARS"
    and "\<not> has NUM_CHARS (peek (pre @ ds @ rest) (length pre + length ds))"
  shows "digits1 (pre @ ds @ rest) (length pre) res = Ok (res @ ds) (length pre + length ds)"
proof -
  from assms(1) obtain d ds' where ds: "ds = d # ds'"
    by (cases ds) auto
  have "digits ((pre @ [d]) @ ds' @ rest) (length (pre @ [d])) (res @ [d])
      = ((res @ [d]) @ ds', length (pre @ [d]) + length ds')"
    using assms(2,3) unfolding ds by (intro digits_run) simp_all
  then show ?thesis
    using assms(2) unfolding ds digits1_def by (simp add: peek_mid)
qed

lemma bigint_literal:
  assumes "ds \<noteq> []" "set ds \<subseteq> NUM_CHARS"
  shows "parseNumber (pre @ ds @ CHR ''n'' # rest) (length pre)
           = Ok (TAtom (VBigInt (int (decimal ds)))) (length pre + length ds + 1)"
    and "parseNumber (pre @ CHR ''-'' # ds @ CHR ''n'' # rest) (length pre)
           = Ok (TAtom (VBigInt (- int (decimal ds)))) (length pre + length ds + 2)"
proof -
  from assms obtain d ds' where ds: "ds = d # ds'" and d: "d \<in> NUM_CHARS"
    by (cases ds) auto
  have n: "\<not> has NUM_CHARS (Some CHR ''n'')"
    by (simp add: has_def NUM_CHARS_def)
  have sgn: "d \<noteq> CHR ''-''" "d \<noteq> CHR ''I''"
    using d by (auto simp: NUM_CHARS_def)
  have 1: "digits1 (pre @ ds @ CHR ''n'' # rest) (length pre) [] = Ok ds (length pre + length ds)"
    using digits1_run [OF assms, of pre "CHR ''n'' # rest" "[]"] n
    by (simp add: peek_def nth_append)
  have p1: "peek (pre @ ds @ CHR ''n'' # rest) (length pre + length ds) = Some CHR ''n''"
    using peek_mid [of "pre @ ds" "CHR ''n''" rest] by simp
  show "parseNumber (pre @ ds @ CHR ''n'' # rest) (length pre)
           = Ok (TAtom (VBigInt (int (decimal ds)))) (length pre + length ds + 1)"
    using sgn 1 p1 unfolding parseNumber_def
    by (simp add: Let_def BigInt_def ds peek_mid)
  have 2: "digits1 ((pre @ [CHR ''-'']) @ ds @ CHR ''n'' # rest) (length (pre @ [CHR ''-''])) []
      = Ok ds (length (pre @ [CHR ''-'']) + length ds)"
    using digits1_run [OF assms, of "pre @ [CHR ''-'']" "CHR ''n'' # rest" "[]"] n
    by (simp add: peek_def nth_append)
  have p2: "peek (pre @ CHR ''-'' # ds @ CHR ''n'' # rest) (Suc (length pre + length ds)) = Some CHR ''n''"
    using peek_mid [of "pre @ CHR ''-'' # ds" "CHR ''n''" rest] by simp
  have p3: "peek (pre @ CHR ''-'' # d # ds' @ CHR ''n'' # rest) (Suc (length pre)) = Some d"
    using peek_mid [of "pre @ [CHR ''-'']" d "ds' @ CHR ''n'' # rest"] by simp
  show "parseNumber (pre @ CHR ''-'' # ds @ CHR ''n'' # rest) (length pre)
           = Ok (TAtom (VBigInt (- int (decimal ds)))) (length pre + length ds + 2)"
    using sgn 2 p2 p3 unfolding parseNumber_def
    by (simp add: Let_def BigInt_def ds peek_mid)
qed


lemma resolveRef_atom: "resolveRef (Suc n) refs h (HAtom a) = Some (HAtom a, h)"
  by (simp add: resolveRef.simps)

lemma single_atom_document:
  assumes "parseJson (Suc n) env buf 0 = Some (Ok (TAtom a) (length buf))"
  shows "deserialize (Suc n) env buf = Some (Returned (HAtom a) [])"
  using assms
  by (simp add: deserialize_def parseDocument_def white_stop peek_end has_def
      statements.simps(2) lookup_def resolveRef_atom)

text \<open>
  Claim C8: \<open>-0\<close> parses to the negative zero, a Number. A run of digits followed by
  \<open>n\<close>, with or without a minus sign before it, parses to the BigInt of exactly that
  value with the sign applied, and the lexer stops right after the \<open>n\<close>, whatever the
  text goes on with; \<open>123n\<close> is the BigInt 123.
\<close>

theorem negative_zero_and_bigint:
  "deserialize (2 + k) env ''-0'' = Some (Returned (HAtom (VNumber (Decimal True ''0''))) []) \<and>
   negative_zero (Decimal True ''0'') \<and>
   (ds \<noteq> [] \<and> set ds \<subseteq> NUM_CHARS \<longrightarrow>
      parseNumber (pre @ ds @ CHR ''n'' # rest) (length pre)
        = Ok (TAtom (VBigInt (int (decimal ds)))) (length pre + length ds + 1) \<and>
      parseNumber (pre @ CHR ''-'' # ds @ CHR ''n'' # rest) (length pre)
        = Ok (TAtom (VBigInt (- int (decimal ds)))) (length pre + length ds + 2)) \<and>
   deserialize (2 + k) env ''123n'' = Some (Returned (HAtom (VBigInt 123)) [])"
proof (intro conjI impI)
  show "deserialize (2 + k) env ''-0'' = Some (Returned (HAtom (VNumber (Decimal True ''0''))) [])"
    by (rule deserialize_mono) code_simp
  show "negative_zero (Decimal True ''0'')"
    by simp
  show "parseNumber (pre @ ds @ CHR ''n'' # rest) (length pre)
        = Ok (TAtom (VBigInt (int (decimal ds)))) (length pre + length ds + 1)"
    if "ds \<noteq> [] \<and> set ds \<subseteq> NUM_CHARS"
    using that bigint_literal(1) by blast
  show "parseNumber (pre @ CHR ''-'' # ds @ CHR ''n'' # rest) (length pre)
        = Ok (TAtom (VBigInt (- int (decimal ds)))) (length pre + length ds + 2)"
    if "ds \<noteq> [] \<and> set ds \<subseteq> NUM_CHARS"
    using that bigint_literal(2) by blast
  show "deserialize (2 + k) env ''123n'' = Some (Returned (HAtom (VBigInt 123)) [])"
    by (rule deserialize_mono) code_simp
qed

theorem negative_zero_and_bigint_witness:
  "''45'' \<noteq> [] \<and> set ''45'' \<subseteq> NUM_CHARS \<and>
   parseNumber (''[1,'' @ ''45'' @ CHR ''n'' # ''.5e3]'') (length ''[1,'') = Ok (TAtom (VBigInt 45)) 6 \<and>
   parseNumber (''[1,'' @ CHR ''-'' # ''45'' @ CHR ''n'' # ''.5e3]'') (length ''[1,'')
     = Ok (TAtom (VBigInt (- 45))) 7"
proof -
  have 1: "''45'' \<noteq> [] \<and> set ''45'' \<subseteq> NUM_CHARS"
    by (simp add: NUM_CHARS_def)
  have 2: "int (decimal ''45'') = 45"
    by (simp add: decimal_def)
  from 1 2 negative_zero_and_bigint [of 0 plain_env "''45''" "''[1,''" "''.5e3]''"]
  show ?thesis by simp
qed

section \<open>Regular expressions\<close>

lemma regexpFlags_any_order:
  assumes "distinct fs" "set fs \<subseteq> flag_chars"
  shows "regexpFlags (pre @ fs) (length pre) = (fs, length pre + length fs)"
proof -
  consider "fs = []" | a where "fs = [a]" | a b where "fs = [a, b]" | a b c where "fs = [a, b, c]"
    | a b c d r where "fs = a # b # c # d # r"
    by (metis list.exhaust)
  then show ?thesis
  proof cases
    case 1
    then show ?thesis by (simp add: regexpFlags_def peek_def)
  next
    case 2
    with assms show ?thesis by (auto simp: regexpFlags_def peek_def flag_chars_def nth_append)
  next
    case 3
    with assms show ?thesis by (auto simp: regexpFlags_def peek_def flag_chars_def nth_append)
  next
    case 4
    with assms show ?thesis by (auto simp: regexpFlags_def peek_def flag_chars_def nth_append)
  next
    case 5
    with assms have False by (auto simp: flag_chars_def)
    then show ?thesis ..
  qed
qed

lemma regexp_step_close:
  "peek buf pos = Some CHR ''/'' \<Longrightarrow>
     parseRegExp_loop (Suc n) env buf pos res
       = (case regexpFlags buf (pos + 1) of
            (flags, pos') \<Rightarrow> Some (new_RegExp env res flags pos'))"
  by (simp add: parseRegExp_loop.simps(2))

lemma regexp_step_plain:
  "peek buf pos = Some c \<Longrightarrow> c \<noteq> CHR ''/'' \<Longrightarrow> c \<noteq> CHR 0x5C \<Longrightarrow>
     parseRegExp_loop (Suc n) env buf pos res
       = parseRegExp_loop n env buf (pos + 1) (res @ [of_char c])"
  by (simp add: parseRegExp_loop.simps(2) append_char_def)

lemma regexp_step_escape:
  "peek buf pos = Some (CHR 0x5C) \<Longrightarrow> peek buf (pos + 1) = Some d \<Longrightarrow>
     parseRegExp_loop (Suc n) env buf pos res
       = parseRegExp_loop n env buf (pos + 2) (res @ [of_char (CHR 0x5C), of_char d])"
  by (simp add: parseRegExp_loop.simps(2) append_char_def)

lemma parseRegExp_loop_pattern:
  "pattern_text body \<Longrightarrow>
     parseRegExp_loop (Suc (length body + k)) env (pre @ body @ CHR ''/'' # rest) (length pre) res
       = (case regexpFlags (pre @ body @ CHR ''/'' # rest) (length pre + length body + 1) of
            (flags, pos') \<Rightarrow> Some (new_RegExp env (res @ units body) flags pos'))"
proof (induction body arbitrary: pre res k rule: pattern_text.induct)
  case 1
  show ?case
    by (simp add: regexp_step_close peek_mid units_def)
next
  case (2 c)
  let ?buf = "pre @ [c] @ CHR ''/'' # rest"
  have "parseRegExp_loop (Suc (Suc k)) env ?buf (length pre) res
      = parseRegExp_loop (Suc k) env ?buf (length pre + 1) (res @ [of_char c])"
    using 2 by (intro regexp_step_plain) (simp_all add: peek_mid)
  also have "\<dots> = (case regexpFlags ?buf (length pre + 1 + 1) of
            (flags, pos') \<Rightarrow> Some (new_RegExp env (res @ [of_char c]) flags pos'))"
    using peek_mid [of "pre @ [c]" "CHR ''/''" rest] by (intro regexp_step_close) simp
  finally show ?case by (simp add: units_def)
next
  case (3 c d ds)
  let ?buf = "pre @ (c # d # ds) @ CHR ''/'' # rest"
  have p1: "peek ?buf (length pre) = Some c"
    by (simp add: peek_mid)
  have p2: "peek ?buf (length pre + 1) = Some d"
    using peek_mid [of "pre @ [c]" d "ds @ CHR ''/'' # rest"] by simp
  show ?case
  proof (cases "c = CHR 0x5C")
    case True
    with 3 have pt: "pattern_text ds" by simp
    have "parseRegExp_loop (Suc (length (c # d # ds) + k)) env ?buf (length pre) res
      = parseRegExp_loop (Suc (length ds + Suc k)) env ?buf (length pre + 2) (res @ [of_char (CHR 0x5C), of_char d])"
      using p1 p2 True regexp_step_escape [of ?buf "length pre" d "Suc (length ds + Suc k)" env res]
      by simp
    also have "\<dots> = parseRegExp_loop (Suc (length ds + Suc k)) env ((pre @ [c, d]) @ ds @ CHR ''/'' # rest)
                    (length (pre @ [c, d])) (res @ [of_char c, of_char d])"
      using True by simp
    also have "\<dots> = (case regexpFlags ((pre @ [c, d]) @ ds @ CHR ''/'' # rest) (length (pre @ [c, d]) + length ds + 1) of
            (flags, pos') \<Rightarrow> Some (new_RegExp env ((res @ [of_char c, of_char d]) @ units ds) flags pos'))"
      using True pt by (intro "3.IH"(1)) simp_all
    finally show ?thesis by (simp add: units_def)
  next
    case False
    with 3 have c: "c \<noteq> CHR ''/''" and pt: "pattern_text (d # ds)"
      by (auto split: if_splits)
    have "parseRegExp_loop (Suc (length (c # d # ds) + k)) env ?buf (length pre) res
      = parseRegExp_loop (Suc (length (d # ds) + k)) env ?buf (length pre + 1) (res @ [of_char c])"
      using p1 c False regexp_step_plain [of ?buf "length pre" c "Suc (length (d # ds) + k)" env res]
      by simp
    also have "\<dots> = parseRegExp_loop (Suc (length (d # ds) + k)) env ((pre @ [c]) @ (d # ds) @ CHR ''/'' # rest)
                    (length (pre @ [c])) (res @ [of_char c])"
      by simp
    also have "\<dots> = (case regexpFlags ((pre @ [c]) @ (d # ds) @ CHR ''/'' # rest) (length (pre @ [c]) + length (d # ds) + 1) of
            (flags, pos') \<Rightarrow> Some (new_RegExp env ((res @ [of_char c]) @ units (d # ds)) flags pos'))"
      using False c pt by (intro "3.IH"(2)) simp_all
    finally show ?thesis by (simp add: units_def)
  qed
qed

lemma regexp_document:
  assumes "pattern_text body" "body \<noteq> []" "distinct fs" "set fs \<subseteq> flag_chars"
  shows "parseJson (Suc (Suc (length body + k))) env (CHR ''/'' # body @ CHR ''/'' # fs) 0
    = Some (new_RegExp env (units body) fs (length (CHR ''/'' # body @ CHR ''/'' # fs)))"
proof -
  let ?buf = "CHR ''/'' # body @ CHR ''/'' # fs"
  have w: "white ?buf 0 = 0"
    by (rule white_stop) (simp add: peek_def has_def WS_CHARS_def)
  from assms(1,2) have hd: "peek ?buf (Suc 0) \<noteq> Some CHR ''/''"
    by (cases body rule: pattern_text.cases) (auto simp: peek_def split: if_splits)
  have f: "regexpFlags ?buf (length body + 2) = (fs, length ?buf)"
    using regexpFlags_any_order [OF assms(3,4), of "CHR ''/'' # body @ [CHR ''/'']"] by simp
  have "parseRegExp_loop (Suc (length body + k)) env ([CHR ''/''] @ body @ CHR ''/'' # fs) (length [CHR ''/'']) []
      = (case regexpFlags ([CHR ''/''] @ body @ CHR ''/'' # fs) (length [CHR ''/''] + length body + 1) of
            (flags, pos') \<Rightarrow> Some (new_RegExp env ([] @ units body) flags pos'))"
    by (rule parseRegExp_loop_pattern [OF assms(1)])
  with f have "parseRegExp_loop (Suc (length body + k)) env ?buf (Suc 0) []
      = Some (new_RegExp env (units body) fs (length ?buf))"
    by simp
  with hd have "parseRegExp (Suc (length body + k)) env ?buf 0
      = Some (new_RegExp env (units body) fs (length ?buf))"
    by (simp add: parseRegExp_def)
  then show ?thesis
    by (subst parseJson.simps(2)) (simp add: w Let_def peek_def)
qed

text \<open>
  Claim C7: for every pattern text and every two orders \<open>fs\<close>, \<open>fs'\<close> of the same flags
  out of i, m and g, \<open>/body/fs\<close> and \<open>/body/fs'\<close> deserialize to the same result: the
  regular expression of that source with exactly those flags set (or the error of the
  engine, when it rejects the pattern).
\<close>

theorem regexp_flags_any_order:
  assumes "pattern_text body" "body \<noteq> []"
    and "distinct fs" "distinct fs'" "set fs = set fs'" "set fs \<subseteq> flag_chars"
  shows "deserialize (length body + 2 + k) env (CHR ''/'' # body @ CHR ''/'' # fs)
           = deserialize (length body + 2 + k) env (CHR ''/'' # body @ CHR ''/'' # fs') \<and>
         deserialize (length body + 2 + k) env (CHR ''/'' # body @ CHR ''/'' # fs)
           = Some (if regexp_ok env (units body)
                   then Returned (HAtom (VRegExp (units body)
                          \<lparr>ignoreCase = CHR ''i'' \<in> set fs, multiline = CHR ''m'' \<in> set fs,
                           global = CHR ''g'' \<in> set fs\<rparr>)) []
                   else Thrown (InvalidRegExp (units body)))"
proof -
  have *: "deserialize (length body + 2 + k) env (CHR ''/'' # body @ CHR ''/'' # gs)
           = Some (if regexp_ok env (units body)
                   then Returned (HAtom (VRegExp (units body)
                          \<lparr>ignoreCase = CHR ''i'' \<in> set gs, multiline = CHR ''m'' \<in> set gs,
                           global = CHR ''g'' \<in> set gs\<rparr>)) []
                   else Thrown (InvalidRegExp (units body)))"
    if "distinct gs" "set gs \<subseteq> flag_chars" for gs
  proof (cases "regexp_ok env (units body)")
    case True
    have "parseJson (Suc (Suc (length body + k))) env (CHR ''/'' # body @ CHR ''/'' # gs) 0
      = Some (Ok (TAtom (VRegExp (units body)
                          \<lparr>ignoreCase = CHR ''i'' \<in> set gs, multiline = CHR ''m'' \<in> set gs,
                           global = CHR ''g'' \<in> set gs\<rparr>)) (length (CHR ''/'' # body @ CHR ''/'' # gs)))"
      using regexp_document [OF assms(1,2) that, of k env] True by (simp add: new_RegExp_def)
    from single_atom_document [OF this] True show ?thesis
      by (simp add: add.commute)
  next
    case False
    have "parseJson (Suc (Suc (length body + k))) env (CHR ''/'' # body @ CHR ''/'' # gs) 0
      = Some (Throw (InvalidRegExp (units body)))"
      using regexp_document [OF assms(1,2) that, of k env] False by (simp add: new_RegExp_def)
    then show ?thesis
      using False by (simp add: deserialize_def parseDocument_def add.commute)
  qed
  from assms have "distinct fs'" "set fs' \<subseteq> flag_chars" by auto
  from * [OF this] * [OF assms(3,6)] assms(5) show ?thesis by simp
qed


theorem regexp_flags_any_order_witness:
  "pattern_text ''ab'' \<and> ''ab'' \<noteq> [] \<and> distinct ''gim'' \<and> distinct ''mig'' \<and> distinct ''img'' \<and>
   set ''gim'' = set ''mig'' \<and> set ''gim'' = set ''img'' \<and> set ''gim'' \<subseteq> flag_chars \<and>
   deserialize 4 plain_env ''/ab/gim'' = deserialize 4 plain_env ''/ab/mig'' \<and>
   deserialize 4 plain_env ''/ab/gim'' = deserialize 4 plain_env ''/ab/img'' \<and>
   deserialize 4 plain_env ''/ab/gim''
     = Some (Returned (HAtom (VRegExp (units ''ab'')
               \<lparr>ignoreCase = True, multiline = True, global = True\<rparr>)) [])"
proof -
  have h: "pattern_text ''ab''" "''ab'' \<noteq> []" "distinct ''gim''" "distinct ''mig''" "distinct ''img''"
    "set ''gim'' = set ''mig''" "set ''gim'' = set ''img''" "set ''gim'' \<subseteq> flag_chars"
    by (auto simp: flag_chars_def)
  have n: "length ''ab'' + 2 + 0 = 4"
    by simp
  have ok: "regexp_ok plain_env (units ''ab'')"
    by (simp add: plain_env_def)
  have 1: "deserialize 4 plain_env ''/ab/gim'' = deserialize 4 plain_env ''/ab/mig''"
    using regexp_flags_any_order [OF h(1,2,3,4,6,8), of 0 plain_env, THEN conjunct1]
    unfolding n by simp
  have 2: "deserialize 4 plain_env ''/ab/gim'' = deserialize 4 plain_env ''/ab/img''"
    using regexp_flags_any_order [OF h(1,2,3,5,7,8), of 0 plain_env, THEN conjunct1]
    unfolding n by simp
  have 3: "deserialize 4 plain_env ''/ab/gim''
     = Some (Returned (HAtom (VRegExp (units ''ab'')
               \<lparr>ignoreCase = True, multiline = True, global = True\<rparr>)) [])"
    using regexp_flags_any_order [OF h(1,2,3,4,6,8), of 0 plain_env, THEN conjunct2] ok
    unfolding n by simp
  from h 1 2 3 show ?thesis by blast
qed

section \<open>References left in place\<close>

text \<open>
  Claim C2 (no reference placeholder can be reached from the returned value). The
  source does not do this. For a reference function \<open>resolveRef\<close> returns
  \<open>refs[index]\<close> as it stands, and a table entry that is put into a member of an
  object is not walked: in \<open>{"a":$1};{"b":$2};5\<close> the member \<open>b\<close> of the object now under
  \<open>a\<close> is still a placeholder. An array is walked twice, by its indices and then by
  for-in, and the second walk does resolve the entry that the first one put in: in
  \<open>[$1];[$2];5\<close> the inner array holds 5. The document \<open>$0\<close> returns its own placeholder.
\<close>

theorem placeholder_escapes:
  \<open>deserialize (9 + k) env ''{"a":$1};{"b":$2};5'' =
     Some (Returned (HPtr 0)
       [CObject None [(units ''a'', HPtr 1)], CObject None [(units ''b'', HRef 2)]]) \<and>
   getprop [CObject None [(units ''a'', HPtr 1)], CObject None [(units ''b'', HRef 2)]] 1
     (Member (units ''b'')) = HRef 2 \<and>
   deserialize (12 + k) env ''[$1];[$2];5'' =
     Some (Returned (HPtr 0) [CArray [HPtr 1], CArray [HAtom (VNumber (Decimal False ''5''))]]) \<and>
   deserialize (2 + k) env ''$0'' = Some (Returned (HRef 0) [])\<close>
proof (intro conjI)
  show \<open>deserialize (9 + k) env ''{"a":$1};{"b":$2};5'' =
     Some (Returned (HPtr 0)
       [CObject None [(units ''a'', HPtr 1)], CObject None [(units ''b'', HRef 2)]])\<close>
    by (rule deserialize_mono) code_simp
  show \<open>getprop [CObject None [(units ''a'', HPtr 1)], CObject None [(units ''b'', HRef 2)]] 1
     (Member (units ''b'')) = HRef 2\<close>
    by code_simp
  show \<open>deserialize (12 + k) env ''[$1];[$2];5'' =
     Some (Returned (HPtr 0) [CArray [HPtr 1], CArray [HAtom (VNumber (Decimal False ''5''))]])\<close>
    by (rule deserialize_mono) code_simp
  show \<open>deserialize (2 + k) env ''$0'' = Some (Returned (HRef 0) [])\<close>
    by (rule deserialize_mono) code_simp
qed

section \<open>A token in its context\<close>

text \<open>
  What a lexer reads from a token depends on the token and on the one character after
  it: in any text that holds the token and then a character that ends it, the lexer
  gives the same value and stops at the end of the token.
\<close>

lemma holds_append: "inert (peek rest 0) \<Longrightarrow> holds (pre @ tx @ rest) (length pre) tx"
  by (auto simp: holds_def peek_def nth_append)

lemma holds_peek_lt: "holds buf off tx \<Longrightarrow> p < length tx \<Longrightarrow> peek buf (off + p) = peek tx p"
  by (simp add: holds_def peek_def)

lemma peek_Some_lt: "peek tx p = Some c \<Longrightarrow> p < length tx"
  by (simp add: peek_def split: if_splits)

lemma holds_peek_Some: "holds buf off tx \<Longrightarrow> peek tx p = Some c \<Longrightarrow> peek buf (off + p) = Some c"
  using holds_peek_lt peek_Some_lt by metis

lemma holds_peek_end: "holds buf off tx \<Longrightarrow> inert (peek buf (off + length tx))"
  by (simp add: holds_def)

lemma inert_not_digit: "inert c \<Longrightarrow> \<not> has NUM_CHARS c"
  by (auto simp: inert_def has_def delimiters_def WS_CHARS_def NUM_CHARS_def split: option.splits)

lemma holds_cases:
  assumes "holds buf off tx" "p \<le> length tx"
  obtains (inside) c where "peek tx p = Some c" "peek buf (off + p) = Some c"
  | (last) "p = length tx" "peek tx p = None" "inert (peek buf (off + p))"
proof (cases "p < length tx")
  case True
  then have "peek tx p = Some (tx ! p)" by (simp add: peek_def)
  with assms True show ?thesis by (intro inside) (auto simp: holds_def)
next
  case False
  with assms have "p = length tx" by simp
  with assms show ?thesis by (intro last) (auto simp: holds_def peek_def)
qed

lemma digits_holds:
  "holds buf off tx \<Longrightarrow> p \<le> length tx \<Longrightarrow> digits tx p res = (r, q) \<Longrightarrow>
     digits buf (off + p) res = (r, off + q) \<and> q \<le> length tx"
proof (induction tx p res rule: digits.induct)
  case (1 tx p res)
  from "1.prems"(1,2) show ?case
  proof (cases rule: holds_cases)
    case (inside c)
    show ?thesis
    proof (cases "c \<in> NUM_CHARS")
      case True
      have lt: "p + 1 \<le> length tx" using inside(1) peek_Some_lt by fastforce
      have "digits tx (p + 1) (res @ [c]) = (r, q)"
        using "1.prems"(3) inside True by (subst (asm) digits.simps) simp
      from "1.IH" [OF inside(1) True "1.prems"(1) lt this]
      show ?thesis using inside True by (subst digits.simps) (simp add: add.assoc)
    next
      case False
      have "(r, q) = (res, p)"
        using "1.prems"(3) inside False by (subst (asm) digits.simps) simp
      then show ?thesis
        using inside False "1.prems"(2) by (subst digits.simps) simp
    qed
  next
    case last
    have "(r, q) = (res, p)"
      using "1.prems"(3) last by (subst (asm) digits.simps) simp
    moreover have "digits buf (off + p) res = (res, off + p)"
      using last(3) by (intro digits_stop inert_not_digit)
    ultimately show ?thesis using last by simp
  qed
qed


lemma inert_delim: "inert (Some ch) = (ch \<in> delimiters)"
  by (simp add: inert_def)

lemma delimiters_iff:
  "ch \<in> delimiters \<longleftrightarrow> ch = CHR 0x0D \<or> ch = CHR 0x0A \<or> ch = CHR 0x09 \<or> ch = CHR '' '' \<or>
     ch = CHR '','' \<or> ch = CHR '']'' \<or> ch = CHR ''}'' \<or> ch = CHR '':'' \<or> ch = CHR '';'' \<or> ch = CHR ''{''"
  by (auto simp: delimiters_def WS_CHARS_def)

lemma inert_neq: "inert c \<Longrightarrow> ch \<notin> delimiters \<Longrightarrow> c \<noteq> Some ch"
  by (auto simp: inert_def)

lemma digits1_holds:
  assumes "holds buf off tx" "p \<le> length tx" "digits1 tx p res = Ok r q"
  shows "digits1 buf (off + p) res = Ok r (off + q) \<and> q \<le> length tx"
  using assms(1,2)
proof (cases rule: holds_cases)
  case (inside c)
  have lt: "p + 1 \<le> length tx" using inside(1) peek_Some_lt by fastforce
  from assms(3) inside have c: "c \<in> NUM_CHARS" and d: "digits tx (p + 1) (res @ [c]) = (r, q)"
    by (auto simp: digits1_def split: if_splits prod.splits)
  from digits_holds [OF assms(1) lt d] c inside show ?thesis
    by (simp add: digits1_def add.assoc)
next
  case last
  with assms(3) show ?thesis by (simp add: digits1_def)
qed

lemma fraction_holds:
  assumes "holds buf off tx" "p \<le> length tx" "fraction tx p res = Ok r q"
  shows "fraction buf (off + p) res = Ok r (off + q) \<and> q \<le> length tx"
  using assms(1,2)
proof (cases rule: holds_cases)
  case (inside c)
  have lt: "p + 1 \<le> length tx" using inside(1) peek_Some_lt by fastforce
  show ?thesis
  proof (cases "c = CHR ''.''")
    case True
    with assms(3) inside have "digits1 tx (p + 1) (res @ [CHR ''.'']) = Ok r q"
      by (simp add: fraction_def)
    from digits1_holds [OF assms(1) lt this] True inside show ?thesis
      by (simp add: fraction_def add.assoc)
  next
    case False
    with assms(3) inside assms(2) show ?thesis by (simp add: fraction_def)
  qed
next
  case last
  have "peek buf (off + p) \<noteq> Some CHR ''.''"
    using last(3) by (rule inert_neq) (simp add: delimiters_iff)
  with assms(3) last show ?thesis by (simp add: fraction_def)
qed

lemma exponent_holds:
  assumes "holds buf off tx" "p \<le> length tx" "exponent tx p res = Ok r q"
  shows "exponent buf (off + p) res = Ok r (off + q) \<and> q \<le> length tx"
  using assms(1,2)
proof (cases rule: holds_cases)
  case (inside e)
  have lt: "p + 1 \<le> length tx" using inside(1) peek_Some_lt by fastforce
  show ?thesis
  proof (cases "e = CHR ''e'' \<or> e = CHR ''E''")
    case False
    with assms(3) inside assms(2) show ?thesis by (auto simp: exponent_def)
  next
    case True
    from assms(1) lt show ?thesis
    proof (cases rule: holds_cases)
      case i2: (inside s)
      have lt2: "p + 2 \<le> length tx" using i2(1) peek_Some_lt by fastforce
      show ?thesis
      proof (cases "s = CHR ''-'' \<or> s = CHR ''+''")
        case s: True
        with assms(3) inside i2 True have "digits1 tx (p + 2) (res @ [e, s]) = Ok r q"
          by (auto simp: exponent_def)
        from digits1_holds [OF assms(1) lt2 this] s True inside i2 show ?thesis
          by (auto simp: exponent_def add.assoc)
      next
        case s: False
        with assms(3) inside i2 True have "digits1 tx (p + 1) (res @ [e]) = Ok r q"
          by (auto simp: exponent_def)
        from digits1_holds [OF assms(1) lt this] s True inside i2 show ?thesis
          by (auto simp: exponent_def add.assoc)
      qed
    next
      case l2: last
      with assms(3) inside True have "digits1 tx (p + 1) (res @ [e]) = Ok r q"
        by (auto simp: exponent_def)
      with l2 show ?thesis by (simp add: digits1_def)
    qed
  qed
next
  case last
  have "peek buf (off + p) \<noteq> Some CHR ''e''"
    using last(3) by (rule inert_neq) (simp add: delimiters_iff)
  moreover have "peek buf (off + p) \<noteq> Some CHR ''E''"
    using last(3) by (rule inert_neq) (simp add: delimiters_iff)
  ultimately show ?thesis using assms(3) last
    by (auto simp: exponent_def split: option.splits)
qed

lemma consume_holds:
  "holds buf off tx \<Longrightarrow> p \<le> length tx \<Longrightarrow> consume tx p lit = Ok u q \<Longrightarrow>
     consume buf (off + p) lit = Ok u (off + q) \<and> q \<le> length tx"
proof (induction lit arbitrary: p)
  case Nil
  then show ?case by simp
next
  case (Cons c lit)
  from Cons.prems(3) have pc: "peek tx p = Some c" and r: "consume tx (p + 1) lit = Ok u q"
    by (auto split: if_splits)
  have lt: "p + 1 \<le> length tx" using pc peek_Some_lt by fastforce
  from Cons.IH [OF Cons.prems(1) lt r] holds_peek_Some [OF Cons.prems(1) pc] show ?case
    by (simp add: add.assoc)
qed

lemma parseNumber_holds:
  assumes "holds buf off tx" "p \<le> length tx" "parseNumber tx p = Ok v q"
  shows "parseNumber buf (off + p) = Ok v (off + q)"
proof -
  define T where "T = (\<lambda>b p1 result isNeg.
     if peek b p1 = Some CHR ''n'' then
       Ok (TAtom (VBigInt (BigInt (if isNeg then CHR ''-'' # result else result)))) (p1 + 1)
     else (case fraction b p1 result of
             Throw e \<Rightarrow> Throw e
           | Ok result2 pos2 \<Rightarrow>
               (case exponent b pos2 result2 of
                  Throw e \<Rightarrow> Throw e
                | Ok result3 pos3 \<Rightarrow> Ok (TAtom (VNumber (Decimal isNeg result3))) pos3)))"
  define B where "B = (\<lambda>b p0 isNeg.
     if peek b p0 = Some CHR ''I'' then
       (case consume b (p0 + 1) ''nfinity'' of
          Throw e \<Rightarrow> Throw e
        | Ok u pos1 \<Rightarrow> Ok (TAtom (VNumber (Infinity isNeg))) pos1)
     else (case digits1 b p0 [] of
             Throw e \<Rightarrow> Throw e
           | Ok result pos1 \<Rightarrow> T b pos1 result isNeg))"
  have unfold: "parseNumber b p0 =
      (if peek b p0 = Some CHR ''-'' then B b (p0 + 1) True else B b p0 False)" for b p0
    by (cases "peek b p0 = Some CHR ''-''")
       (simp_all add: parseNumber_def B_def T_def Let_def split: result.splits)
  have tail: "T buf (off + p1) result isNeg = Ok v (off + q)"
    if d: "p1 \<le> length tx" and t: "T tx p1 result isNeg = Ok v q" for p1 result isNeg
    using assms(1) d
  proof (cases rule: holds_cases)
    case (inside c)
    show ?thesis
    proof (cases "c = CHR ''n''")
      case True
      with t inside show ?thesis by (simp add: T_def)
    next
      case False
      with t inside obtain r2 p2 r3 p3 where
        f: "fraction tx p1 result = Ok r2 p2" and e: "exponent tx p2 r2 = Ok r3 p3"
        and v: "v = TAtom (VNumber (Decimal isNeg r3))" "q = p3"
        by (auto simp: T_def split: result.splits)
      from fraction_holds [OF assms(1) d f] have f': "fraction buf (off + p1) result = Ok r2 (off + p2)"
        and p2: "p2 \<le> length tx" by auto
      from exponent_holds [OF assms(1) p2 e] have "exponent buf (off + p2) r2 = Ok r3 (off + p3)"
        by auto
      with f' v False inside show ?thesis by (simp add: T_def)
    qed
  next
    case last
    have nn: "peek buf (off + p1) \<noteq> Some CHR ''n''"
      using last(3) by (rule inert_neq) (simp add: delimiters_iff)
    from t last obtain r2 p2 r3 p3 where
      f: "fraction tx p1 result = Ok r2 p2" and e: "exponent tx p2 r2 = Ok r3 p3"
      and v: "v = TAtom (VNumber (Decimal isNeg r3))" "q = p3"
      by (auto simp: T_def split: result.splits)
    from fraction_holds [OF assms(1) d f] have f': "fraction buf (off + p1) result = Ok r2 (off + p2)"
      and p2: "p2 \<le> length tx" by auto
    from exponent_holds [OF assms(1) p2 e] have "exponent buf (off + p2) r2 = Ok r3 (off + p3)"
      by auto
    with f' v nn show ?thesis by (simp add: T_def)
  qed
  have body: "B buf (off + p0) isNeg = Ok v (off + q)"
    if d: "p0 \<le> length tx" and t: "B tx p0 isNeg = Ok v q" for p0 isNeg
    using assms(1) d
  proof (cases rule: holds_cases)
    case (inside c)
    have lt: "p0 + 1 \<le> length tx" using inside(1) peek_Some_lt by fastforce
    show ?thesis
    proof (cases "c = CHR ''I''")
      case True
      with t inside obtain u where c: "consume tx (p0 + 1) ''nfinity'' = Ok u q"
        and v: "v = TAtom (VNumber (Infinity isNeg))"
        by (auto simp: B_def split: result.splits)
      from consume_holds [OF assms(1) lt c] v True inside show ?thesis
        by (simp add: B_def add.assoc)
    next
      case False
      with t inside obtain result p1 where d1: "digits1 tx p0 [] = Ok result p1"
        and t1: "T tx p1 result isNeg = Ok v q"
        by (auto simp: B_def split: result.splits)
      from digits1_holds [OF assms(1) d d1] have d1': "digits1 buf (off + p0) [] = Ok result (off + p1)"
        and p1: "p1 \<le> length tx" by auto
      from tail [OF p1 t1] d1' False inside show ?thesis by (simp add: B_def)
    qed
  next
    case last
    with t show ?thesis by (simp add: B_def digits1_def)
  qed
  from assms(1,2) show ?thesis
  proof (cases rule: holds_cases)
    case (inside c)
    have lt: "p + 1 \<le> length tx" using inside(1) peek_Some_lt by fastforce
    show ?thesis
    proof (cases "c = CHR ''-''")
      case True
      with assms(3) inside have "B tx (p + 1) True = Ok v q" by (simp add: unfold)
      from body [OF lt this] True inside show ?thesis by (simp add: unfold add.assoc)
    next
      case False
      with assms(3) inside have "B tx p False = Ok v q" by (simp add: unfold)
      from body [OF assms(2) this] False inside show ?thesis by (simp add: unfold)
    qed
  next
    case last
    with assms(3) show ?thesis
      by (simp add: unfold B_def digits1_def)
  qed
qed

lemma holds_view:
  "holds buf off tx \<Longrightarrow> p \<le> length tx \<Longrightarrow>
     (\<exists>c. peek tx p = Some c \<and> peek buf (off + p) = Some c \<and> p < length tx) \<or>
     (p = length tx \<and> peek tx p = None \<and> inert (peek buf (off + p)))"
  by (erule (1) holds_cases) (auto dest: peek_Some_lt)

lemma parseRef_holds:
  assumes "holds buf off tx" "p < length tx" "parseRef tx p = Ok v q"
  shows "parseRef buf (off + p) = Ok v (off + q)"
proof -
  from assms(3) obtain r where d: "digits tx (p + 1) [] = (r, q)" and v: "v = TRef (decimal r)"
    by (auto simp: parseRef_def split: prod.splits)
  from assms(2) have "p + 1 \<le> length tx" by simp
  from digits_holds [OF assms(1) this d] v show ?thesis
    by (simp add: parseRef_def add.assoc)
qed

lemma hex_loop_holds:
  "holds buf off tx \<Longrightarrow> p \<le> length tx \<Longrightarrow> hex_loop i tx p u = Ok x q \<Longrightarrow>
     hex_loop i buf (off + p) u = Ok x (off + q) \<and> q \<le> length tx"
proof (induction i arbitrary: p u)
  case 0
  then show ?case by simp
next
  case (Suc i)
  from Suc.prems(1,2) show ?case
  proof (cases rule: holds_cases)
    case (inside c)
    have lt: "p + 1 \<le> length tx" using inside(1) peek_Some_lt by fastforce
    from Suc.prems(3) inside obtain hex where h: "parseInt16 (Some c) = Some hex"
      and r: "hex_loop i tx (p + 1) (u * 16 + hex) = Ok x q"
      by (auto split: option.splits)
    from Suc.IH [OF Suc.prems(1) lt r] h inside show ?thesis
      by (simp add: add.assoc)
  next
    case last
    with Suc.prems(3) show ?thesis by (simp add: parseInt16_def)
  qed
qed

lemma parseString_loop_past_end:
  "length tx \<le> p \<Longrightarrow> parseString_loop n tx p res = None"
  by (rule parseString_loop_no_quote) simp_all

lemma parseString_loop_holds:
  "holds buf off tx \<Longrightarrow> p \<le> length tx \<Longrightarrow> parseString_loop n tx p res = Some (Ok r q) \<Longrightarrow>
     parseString_loop n buf (off + p) res = Some (Ok r (off + q)) \<and> q \<le> length tx"
proof (induction n arbitrary: p res)
  case 0
  then show ?case by simp
next
  case (Suc n)
  from Suc.prems(1,2) show ?case
  proof (cases rule: holds_cases)
    case last
    then have "parseString_loop n tx (p + 1) (append_char res None) = None"
      by (intro parseString_loop_past_end) simp
    with Suc.prems(3) last show ?thesis
      by (simp add: parseString_loop.simps(2))
  next
    case (inside c)
    have lt: "p + 1 \<le> length tx" using inside(1) peek_Some_lt by fastforce
    consider (quote) "c = CHR 0x22" | (esc) "c = CHR 0x5C" | (plain) "c \<noteq> CHR 0x22" "c \<noteq> CHR 0x5C"
      by blast
    then show ?thesis
    proof cases
      case quote
      with Suc.prems(3) inside lt show ?thesis
        by (auto simp: parseString_loop.simps(2))
    next
      case plain
      with Suc.prems(3) inside have "parseString_loop n tx (p + 1) (append_char res (Some c)) = Some (Ok r q)"
        by (simp add: parseString_loop.simps(2))
      from Suc.IH [OF Suc.prems(1) lt this] plain inside show ?thesis
        by (simp add: parseString_loop.simps(2) add.assoc)
    next
      case esc
      from Suc.prems(1) lt show ?thesis
      proof (cases rule: holds_cases)
        case l2: last
        with Suc.prems(3) inside esc show ?thesis
          by (simp add: parseString_loop.simps(2) STRING_ESC_def)
      next
        case i2: (inside d)
        have lt2: "p + 2 \<le> length tx" using i2(1) peek_Some_lt by fastforce
        show ?thesis
        proof (cases "d = CHR ''u''")
          case True
          with Suc.prems(3) inside esc i2 obtain uffff p' where
            h: "hex_loop 4 tx (p + 2) 0 = Ok uffff p'"
            and r: "parseString_loop n tx p' (res @ [uffff]) = Some (Ok r q)"
            by (auto simp: parseString_loop.simps(2) split: result.splits)
          from hex_loop_holds [OF Suc.prems(1) lt2 h] have
            h': "hex_loop 4 buf (off + (p + 2)) 0 = Ok uffff (off + p')" and p': "p' \<le> length tx"
            by auto
          from Suc.IH [OF Suc.prems(1) p' r] h' True inside esc i2 show ?thesis
            by (simp add: parseString_loop.simps(2) add.assoc)
        next
          case False
          with Suc.prems(3) inside esc i2 obtain e where
            e: "STRING_ESC (Some d) = Some e"
            and r: "parseString_loop n tx (p + 2) (res @ [e]) = Some (Ok r q)"
            by (auto simp: parseString_loop.simps(2) split: option.splits)
          from Suc.IH [OF Suc.prems(1) lt2 r] e False inside esc i2 show ?thesis
            by (simp add: parseString_loop.simps(2) add.assoc)
        qed
      qed
    qed
  qed
qed

lemma parseString_holds:
  assumes "holds buf off tx" "p < length tx" "parseString n tx p = Some (Ok r q)"
  shows "parseString n buf (off + p) = Some (Ok r (off + q)) \<and> q \<le> length tx"
proof -
  from assms(2) have "p + 1 \<le> length tx" by simp
  from parseString_loop_holds [OF assms(1) this] assms(3) show ?thesis
    by (simp add: parseString_def add.assoc)
qed

lemma inert_not_flag:
  "inert c \<Longrightarrow> c \<noteq> Some CHR ''i'' \<and> c \<noteq> Some CHR ''m'' \<and> c \<noteq> Some CHR ''g''"
  by (auto simp: inert_def delimiters_iff split: option.splits)

lemma regexpFlags_holds:
  assumes "holds buf off tx" "p \<le> length tx" "regexpFlags tx p = (fl, q)"
  shows "regexpFlags buf (off + p) = (fl, off + q) \<and> q \<le> length tx"
proof -
  note v0 = holds_view [OF assms(1), of p]
  note v1 = holds_view [OF assms(1), of "p + 1"]
  note v2 = holds_view [OF assms(1), of "p + 2"]
  from v0 [OF assms(2)] show ?thesis
  proof (elim disjE exE conjE)
    assume "p = length tx" "peek tx p = None" "inert (peek buf (off + p))"
    with assms(3) inert_not_flag [of "peek buf (off + p)"] show ?thesis
      by (simp add: regexpFlags_def)
  next
    fix c assume c: "peek tx p = Some c" "peek buf (off + p) = Some c" "p < length tx"
    then have "p + 1 \<le> length tx" by simp
    from v1 [OF this] show ?thesis
    proof (elim disjE exE conjE)
      assume "p + 1 = length tx" "peek tx (p + 1) = None" "inert (peek buf (off + (p + 1)))"
      with assms(3) c inert_not_flag [of "peek buf (off + (p + 1))"] show ?thesis
        by (auto simp: regexpFlags_def add.assoc split: if_splits)
    next
      fix d assume d: "peek tx (p + 1) = Some d" "peek buf (off + (p + 1)) = Some d" "p + 1 < length tx"
      then have "p + 2 \<le> length tx" by simp
      from v2 [OF this] show ?thesis
      proof (elim disjE exE conjE)
        assume "p + 2 = length tx" "peek tx (p + 2) = None" "inert (peek buf (off + (p + 2)))"
        with assms(3) c d inert_not_flag [of "peek buf (off + (p + 2))"] show ?thesis
          by (auto simp: regexpFlags_def add.assoc split: if_splits)
      next
        fix e assume e: "peek tx (p + 2) = Some e" "peek buf (off + (p + 2)) = Some e" "p + 2 < length tx"
        with assms(3) c d show ?thesis
          by (auto simp: regexpFlags_def add.assoc split: if_splits)
      qed
    qed
  qed
qed

lemma parseRegExp_loop_past_end:
  "length tx \<le> p \<Longrightarrow> parseRegExp_loop n env tx p res = None"
proof (induction n arbitrary: p res)
  case 0
  show ?case by simp
next
  case (Suc n)
  then have "peek tx p = None" by (simp add: peek_def)
  moreover have "parseRegExp_loop n env tx (p + 1) (append_char res None) = None"
    using Suc.prems by (intro Suc.IH) simp
  ultimately show ?case by (simp add: parseRegExp_loop.simps(2))
qed

lemma parseRegExp_loop_holds:
  "holds buf off tx \<Longrightarrow> p \<le> length tx \<Longrightarrow> parseRegExp_loop n env tx p res = Some (Ok v q) \<Longrightarrow>
     parseRegExp_loop n env buf (off + p) res = Some (Ok v (off + q)) \<and> q \<le> length tx"
proof (induction n arbitrary: p res)
  case 0
  then show ?case by simp
next
  case (Suc n)
  from Suc.prems(1,2) show ?case
  proof (cases rule: holds_cases)
    case last
    then have "parseRegExp_loop n env tx (p + 1) (append_char res None) = None"
      by (intro parseRegExp_loop_past_end) simp
    with Suc.prems(3) last show ?thesis
      by (simp add: parseRegExp_loop.simps(2))
  next
    case (inside c)
    have lt: "p + 1 \<le> length tx" using inside(1) peek_Some_lt by fastforce
    consider (slash) "c = CHR ''/''" | (esc) "c = CHR 0x5C" | (plain) "c \<noteq> CHR ''/''" "c \<noteq> CHR 0x5C"
      by blast
    then show ?thesis
    proof cases
      case slash
      with Suc.prems(3) inside obtain fl q' where
        f: "regexpFlags tx (p + 1) = (fl, q')" and r: "new_RegExp env res fl q' = Ok v q"
        by (auto simp: parseRegExp_loop.simps(2) split: prod.splits)
      from regexpFlags_holds [OF Suc.prems(1) lt f] have
        f': "regexpFlags buf (off + (p + 1)) = (fl, off + q')" and q': "q' \<le> length tx"
        by auto
      from r have "new_RegExp env res fl (off + q') = Ok v (off + q)" "q = q'"
        by (auto simp: new_RegExp_def split: if_splits)
      with f' q' slash inside show ?thesis
        by (simp add: parseRegExp_loop.simps(2) add.assoc)
    next
      case plain
      with Suc.prems(3) inside have "parseRegExp_loop n env tx (p + 1) (append_char res (Some c)) = Some (Ok v q)"
        by (simp add: parseRegExp_loop.simps(2))
      from Suc.IH [OF Suc.prems(1) lt this] plain inside show ?thesis
        by (simp add: parseRegExp_loop.simps(2) add.assoc)
    next
      case esc
      from Suc.prems(1) lt show ?thesis
      proof (cases rule: holds_cases)
        case l2: last
        then have "parseRegExp_loop n env tx (p + 2)
            (append_char (append_char res (Some c)) None) = None"
          by (intro parseRegExp_loop_past_end) simp
        with Suc.prems(3) inside esc l2 show ?thesis
          by (simp add: parseRegExp_loop.simps(2))
      next
        case i2: (inside d)
        have lt2: "p + 2 \<le> length tx" using i2(1) peek_Some_lt by fastforce
        from Suc.prems(3) inside esc i2 have
          "parseRegExp_loop n env tx (p + 2) (append_char (append_char res (Some c)) (Some d)) = Some (Ok v q)"
          by (simp add: parseRegExp_loop.simps(2))
        from Suc.IH [OF Suc.prems(1) lt2 this] inside esc i2 show ?thesis
          by (simp add: parseRegExp_loop.simps(2) add.assoc)
      qed
    qed
  qed
qed

lemma parseRegExp_holds:
  assumes "holds buf off tx" "p < length tx" "parseRegExp n env tx p = Some (Ok v q)"
  shows "parseRegExp n env buf (off + p) = Some (Ok v (off + q))"
proof -
  from assms(2) have lt: "p + 1 \<le> length tx" by simp
  from assms(1) lt show ?thesis
  proof (cases rule: holds_cases)
    case last
    then have "parseRegExp_loop n env tx (p + 1) [] = None"
      by (intro parseRegExp_loop_past_end) simp
    with assms(3) last show ?thesis by (simp add: parseRegExp_def)
  next
    case (inside c)
    with assms(3) have c: "c \<noteq> CHR ''/''" and r: "parseRegExp_loop n env tx (p + 1) [] = Some (Ok v q)"
      by (auto simp: parseRegExp_def split: if_splits)
    from parseRegExp_loop_holds [OF assms(1) lt r] c inside show ?thesis
      by (simp add: parseRegExp_def add.assoc)
  qed
qed

lemma parseName_loop_stop:
  "(\<And>c. peek buf p = Some c \<Longrightarrow> \<not> ident_char c) \<Longrightarrow> parseName_loop buf p res = (res, p)"
  by (subst parseName_loop.simps) (auto simp: Let_def ident_char_def split: option.splits)

lemma inert_not_ident: "inert (Some c) \<Longrightarrow> \<not> ident_char c"
  by (auto simp: inert_def delimiters_iff ident_char_def is_letter_def)

lemma parseName_loop_holds:
  "holds buf off tx \<Longrightarrow> p \<le> length tx \<Longrightarrow> parseName_loop tx p res = (r, q) \<Longrightarrow>
     parseName_loop buf (off + p) res = (r, off + q) \<and> q \<le> length tx"
proof (induction tx p res rule: parseName_loop.induct)
  case (1 tx p res)
  from "1.prems"(1,2) show ?case
  proof (cases rule: holds_cases)
    case (inside c)
    have lt: "p + 1 \<le> length tx" using inside(1) peek_Some_lt by fastforce
    show ?thesis
    proof (cases "(of_char c :: nat) \<noteq> 0 \<and> ident_char c")
      case True
      then have go: "is_letter (of_char c) \<or> 48 \<le> (of_char c :: nat) \<and> (of_char c :: nat) \<le> 57
          \<or> (of_char c :: nat) = 95" and nz: "(of_char c :: nat) \<noteq> 0"
        by (auto simp: ident_char_def)
      have "parseName_loop tx (p + 1) (res @ [c]) = (r, q)"
        using "1.prems"(3) inside go nz by (subst (asm) parseName_loop.simps) (simp add: Let_def)
      from "1.IH" [OF inside(1) refl nz go "1.prems"(1) lt this]
      show ?thesis using inside go nz
        by (subst parseName_loop.simps) (simp add: Let_def add.assoc)
    next
      case False
      then have "(r, q) = (res, p)"
        using "1.prems"(3) inside
        by (subst (asm) parseName_loop.simps) (auto simp: Let_def ident_char_def split: if_splits)
      moreover have "parseName_loop buf (off + p) res = (res, off + p)"
        using inside False
        by (subst parseName_loop.simps) (auto simp: Let_def ident_char_def split: if_splits)
      ultimately show ?thesis using "1.prems"(2) by simp
    qed
  next
    case last
    have "(r, q) = (res, p)"
      using "1.prems"(3) last by (subst (asm) parseName_loop.simps) simp
    moreover have "parseName_loop buf (off + p) res = (res, off + p)"
      using last(3) by (intro parseName_loop_stop) (auto dest: inert_not_ident)
    ultimately show ?thesis using last by simp
  qed
qed

lemma parseName_holds:
  assumes "holds buf off tx" "p \<le> length tx" "parseName tx p = (name, q)"
  shows "parseName buf (off + p) = (name, off + q) \<and> q \<le> length tx"
  using assms(1,2)
proof (cases rule: holds_cases)
  case (inside c)
  have lt: "p + 1 \<le> length tx" using inside(1) peek_Some_lt by fastforce
  show ?thesis
  proof (cases "is_letter (of_char c)")
    case True
    with assms(3) inside have "parseName_loop tx (p + 1) [c] = (name, q)"
      by (simp add: parseName_def)
    from parseName_loop_holds [OF assms(1) lt this] True inside show ?thesis
      by (simp add: parseName_def add.assoc)
  next
    case False
    with assms(3) inside assms(2) show ?thesis by (simp add: parseName_def)
  qed
next
  case last
  then obtain "peek buf (off + p) = None \<or> (\<exists>c. peek buf (off + p) = Some c \<and> \<not> is_letter (of_char c))"
    by (cases "peek buf (off + p)") (auto dest: inert_not_ident simp: ident_char_def)
  with assms(3) last show ?thesis by (auto simp: parseName_def)
qed

section \<open>The values of the grammar\<close>

text \<open>
  On the text of a piece of syntax, whatever stands before it and whatever whitespace
  it has between its tokens, \<open>parseJson\<close> returns the value of the syntax and stops at
  its end.
\<close>

lemma fuel_mono:
  assumes "\<And>n. f n = Some r \<Longrightarrow> f (Suc n) = Some r" "f n = Some r" "n \<le> m"
  shows "f m = Some r"
  using assms(3,2) by (induction rule: dec_induct) (auto intro: assms(1))

lemma set_prototype_not_leaf: "\<not> leaf obj \<Longrightarrow> \<not> leaf (set_prototype obj v)"
  by (simp add: set_prototype_def)

lemma assign_not_leaf: "assign k v obj = Some obj' \<Longrightarrow> \<not> leaf obj \<Longrightarrow> \<not> leaf obj'"
  using set_prototype_not_leaf [of obj v]
  by (cases obj) (auto split: if_splits slot.splits)

lemma setPrototypeOf_not_leaf: "\<not> leaf obj \<Longrightarrow> \<not> leaf (setPrototypeOf obj name)"
  by (cases obj) simp_all

lemma setPrototypeOf_null_not_leaf: "\<not> leaf obj \<Longrightarrow> \<not> leaf (setPrototypeOf_null obj)"
  by (cases obj) simp_all

lemma setPrototypeOf_Object_not_leaf: "\<not> leaf obj \<Longrightarrow> \<not> leaf (setPrototypeOf_Object obj)"
  by (cases obj) simp_all

lemma parseObject_loop_not_leaf:
  "parseObject_loop n env buf pos res = Some (Ok t p) \<Longrightarrow> \<not> leaf res \<Longrightarrow> \<not> leaf t"
proof (induction n arbitrary: pos res)
  case 0
  then show ?case by simp
next
  case (Suc n)
  from Suc.prems show ?case
    apply (subst (asm) parseObject_loop.simps(2))
    apply (auto simp: Let_def split: if_splits option.splits result.splits
        dest: assign_not_leaf Suc.IH)
    done
qed

lemma parseObject_not_leaf:
  "parseObject n env buf pos = Some (Ok obj p) \<Longrightarrow> \<not> leaf obj"
  by (cases n)
     (auto simp: parseObject.simps(2) Let_def split: if_splits dest: parseObject_loop_not_leaf)

lemma white_idem: "white buf (white buf p) = white buf p"
proof (induction buf p rule: white.induct)
  case (1 buf pos)
  show ?case
  proof (cases "has WS_CHARS (peek buf pos)")
    case True
    with 1 show ?thesis by (simp add: white_step)
  next
    case False
    then show ?thesis by (simp add: white_stop)
  qed
qed

lemma parseJson_white: "parseJson n env buf (white buf p) = parseJson n env buf p"
  by (cases n) (simp_all add: parseJson.simps(2) white_idem)

lemma token_holds:
  assumes ok: "parseJson (Suc n) env tx 0 = Some (Ok v q)" and lf: "leaf v"
    and ne: "tx \<noteq> []" and hd: "hd tx \<notin> WS_CHARS" "hd tx \<noteq> CHR ''{''" "hd tx \<noteq> CHR ''[''"
    and h: "holds buf off tx"
  shows "parseJson (Suc n) env buf off = Some (Ok v (off + q))"
proof -
  let ?c = "hd tx"
  from ne have p0: "peek tx 0 = Some ?c" by (cases tx) (simp_all add: peek_def)
  from holds_peek_Some [OF h p0] have b0: "peek buf off = Some ?c" by simp
  from ne have lt: "0 < length tx" by simp
  have w: "white tx 0 = 0" "white buf off = off"
    using hd(1) p0 b0 by (auto intro!: white_stop simp: has_def)
  consider (ref) "?c = CHR ''$''" | (rx) "?c = CHR ''/''" | (str) "?c = CHR 0x22"
    | (num) "?c = CHR ''-'' \<or> ?c \<in> NUM_CHARS"
    | (name) "?c \<noteq> CHR ''$''" "?c \<noteq> CHR ''/''" "?c \<noteq> CHR 0x22" "?c \<noteq> CHR ''-''" "?c \<notin> NUM_CHARS"
    by blast
  then show ?thesis
  proof cases
    case ref
    with ok p0 w have "parseRef tx 0 = Ok v q"
      by (simp add: parseJson.simps(2) Let_def)
    from parseRef_holds [OF h lt this] ref b0 w show ?thesis
      by (simp add: parseJson.simps(2) Let_def)
  next
    case rx
    with ok p0 w have "parseRegExp n env tx 0 = Some (Ok v q)"
      by (simp add: parseJson.simps(2) Let_def)
    from parseRegExp_holds [OF h lt this] rx b0 w show ?thesis
      by (simp add: parseJson.simps(2) Let_def)
  next
    case str
    with ok p0 w obtain s where s: "parseString n tx 0 = Some (Ok s q)" and v: "v = TAtom (VString s)"
      by (auto simp: parseJson.simps(2) Let_def split: option.splits result.splits)
    from parseString_holds [OF h lt s] v str b0 w show ?thesis
      by (simp add: parseJson.simps(2) Let_def)
  next
    case num
    then have nn: "?c \<noteq> CHR ''$''" "?c \<noteq> CHR ''/''" "?c \<noteq> CHR 0x22"
      by (auto simp: NUM_CHARS_def)
    with ok p0 w hd num have "parseNumber tx 0 = Ok v q"
      by (auto simp: parseJson.simps(2) Let_def has_def)
    from parseNumber_holds [OF h _ this] nn hd num b0 w show ?thesis
      by (auto simp: parseJson.simps(2) Let_def has_def)
  next
    case name
    obtain nm p1 where pn: "parseName tx 0 = (nm, p1)" by (cases "parseName tx 0")
    from parseName_holds [OF h _ pn] have pn': "parseName buf off = (nm, off + p1)" and p1: "p1 \<le> length tx"
      by auto
    show ?thesis
    proof (cases "literal_of nm")
      case (Some a)
      have "parseName tx (white tx 0) = (nm, p1)" "parseName buf (white buf off) = (nm, off + p1)"
        using pn pn' w by simp_all
      from keyword_literal [OF this(1) Some, of n env] keyword_literal [OF this(2) Some, of n env] ok
      show ?thesis by simp
    next
      case None
      then have nk: "nm \<noteq> ''NaN''" "nm \<noteq> ''Infinity''" "nm \<noteq> ''undefined''" "nm \<noteq> ''null''"
        "nm \<noteq> ''true''" "nm \<noteq> ''false''"
        by (auto simp: literal_of_def split: if_splits)
      from ok p0 w hd name pn nk obtain obj p2 where
        "parseObject n env tx p1 = Some (Ok obj p2)"
        and v: "v = obj \<or> v = setPrototypeOf obj nm \<or> v = setPrototypeOf_null obj
          \<or> v = setPrototypeOf_Object obj"
        by (auto simp: parseJson.simps(2) Let_def has_def
            split: if_splits option.splits result.splits class_entry.splits)
      from parseObject_not_leaf [OF this(1)] v lf setPrototypeOf_not_leaf [of obj nm]
        setPrototypeOf_null_not_leaf [of obj] setPrototypeOf_Object_not_leaf [of obj]
      show ?thesis by auto
    qed
  qed
qed

lemma peek_at: "buf = pre @ c # rest \<Longrightarrow> p = length pre \<Longrightarrow> peek buf p = Some c"
  by (simp add: peek_def)

lemma peek_rest: "buf = pre @ rest \<Longrightarrow> p = length pre \<Longrightarrow> peek buf p = peek rest 0"
  by (cases rest) (simp_all add: peek_def)

lemma white_over:
  assumes "buf = pre @ w @ rest" "p = length pre" "blank w" "\<not> has WS_CHARS (peek rest 0)"
  shows "white buf p = p + length w"
proof -
  have "white buf p = white buf (p + length w)"
    using white_run [of w pre rest] assms by (simp add: blank_def)
  moreover have "peek buf (p + length w) = peek rest 0"
    using assms(1,2) by (intro peek_rest [of _ "pre @ w"]) simp_all
  ultimately show ?thesis
    using assms(4) by (simp add: white_stop)
qed

lemma parseArray_loop_Suc:
  "parseArray_loop n env buf p acc = Some r \<Longrightarrow> parseArray_loop (Suc n) env buf p acc = Some r"
  using parse_Suc by blast

lemma parseObject_loop_Suc:
  "parseObject_loop n env buf p acc = Some r \<Longrightarrow> parseObject_loop (Suc n) env buf p acc = Some r"
  using parse_Suc by blast

lemma parseObject_Suc:
  "parseObject n env buf p = Some r \<Longrightarrow> parseObject (Suc n) env buf p = Some r"
  using parse_Suc by blast

lemma parseJson_le:
  assumes "parseJson n env buf p = Some r" "n \<le> m"
  shows "parseJson m env buf p = Some r"
proof (rule fuel_mono [where f = "\<lambda>n. parseJson n env buf p"])
  show "parseJson (Suc k) env buf p = Some r" if "parseJson k env buf p = Some r" for k
    using that by (rule parseJson_Suc)
qed (fact assms)+

lemma parseArray_loop_le:
  assumes "parseArray_loop n env buf p acc = Some r" "n \<le> m"
  shows "parseArray_loop m env buf p acc = Some r"
proof (rule fuel_mono [where f = "\<lambda>n. parseArray_loop n env buf p acc"])
  show "parseArray_loop (Suc k) env buf p acc = Some r" if "parseArray_loop k env buf p acc = Some r" for k
    using that by (rule parseArray_loop_Suc)
qed (fact assms)+

lemma parseObject_loop_le:
  assumes "parseObject_loop n env buf p acc = Some r" "n \<le> m"
  shows "parseObject_loop m env buf p acc = Some r"
proof (rule fuel_mono [where f = "\<lambda>n. parseObject_loop n env buf p acc"])
  show "parseObject_loop (Suc k) env buf p acc = Some r" if "parseObject_loop k env buf p acc = Some r" for k
    using that by (rule parseObject_loop_Suc)
qed (fact assms)+

lemma parseObject_le:
  assumes "parseObject n env buf p = Some r" "n \<le> m"
  shows "parseObject m env buf p = Some r"
proof (rule fuel_mono [where f = "\<lambda>n. parseObject n env buf p"])
  show "parseObject (Suc k) env buf p = Some r" if "parseObject k env buf p = Some r" for k
    using that by (rule parseObject_Suc)
qed (fact assms)+

lemma parseString_le:
  assumes "parseString n buf p = Some r" "n \<le> m"
  shows "parseString m buf p = Some r"
proof (rule fuel_mono [where f = "\<lambda>n. parseString n buf p"])
  show "parseString (Suc k) buf p = Some r" if "parseString k buf p = Some r" for k
    using that by (rule parseString_Suc)
qed (fact assms)+

lemma statements_le:
  assumes "statements n env buf p refs = Some r" "n \<le> m"
  shows "statements m env buf p refs = Some r"
proof (rule fuel_mono [where f = "\<lambda>n. statements n env buf p refs"])
  show "statements (Suc k) env buf p refs = Some r" if "statements k env buf p refs = Some r" for k
    using that by (rule statements_Suc)
qed (fact assms)+

lemma token_not_bracket:
  assumes "parseJson (Suc n) env t 0 = Some (Ok v p)" "t \<noteq> []"
  shows "hd t \<noteq> CHR '']''"
proof
  assume c: "hd t = CHR '']''"
  with assms(2) have p0: "peek t 0 = Some CHR '']''" by (cases t) (simp_all add: peek_def)
  then have w: "white t 0 = 0" by (intro white_stop) (simp add: has_def WS_CHARS_def)
  have n: "parseName t 0 = ([], 0)" using p0 by (simp add: parseName_def is_letter_def)
  from assms(1) show False
    by (simp add: parseJson.simps(2) Let_def w p0 n has_def NUM_CHARS_def)
qed

lemma core_head:
  assumes "wf_value env s"
  shows "\<exists>c cs. core s = c # cs \<and> c \<notin> WS_CHARS \<and> c \<noteq> CHR '']''"
proof (cases s)
  case (Token b t a)
  with assms have t: "t \<noteq> []" "hd t \<notin> WS_CHARS" and
    "\<exists>v. parseJson (Suc (length t)) env t 0 = Some (Ok v (length t))"
    by (auto simp: wf_token_def split: option.splits result.splits)
  then obtain v where "parseJson (Suc (length t)) env t 0 = Some (Ok v (length t))" by blast
  from token_not_bracket [OF this t(1)] t Token show ?thesis
    by (cases t) auto
next
  case (ArrayS b i xs a)
  then show ?thesis by (simp add: WS_CHARS_def)
next
  case (ObjectS b tag i ms a)
  show ?thesis
  proof (cases tag)
    case Nil
    with ObjectS show ?thesis by (simp add: WS_CHARS_def)
  next
    case (Cons c cs)
    with assms ObjectS have "parseName tag 0 = (tag, length tag)" "tag \<noteq> []"
      by (auto simp: wf_tag_def)
    from parseName_letter [OF this] Cons have "is_letter (of_char c)"
      by (simp add: peek_def)
    then have "c \<notin> WS_CHARS \<and> c \<noteq> CHR '']''"
      by (auto simp: is_letter_def WS_CHARS_def)
    with ObjectS Cons show ?thesis by simp
  qed
qed

lemma core_head_not_ws: "wf_value env s \<Longrightarrow> \<not> has WS_CHARS (peek (core s @ rest) 0)"
  using core_head [of env s] by (auto simp: peek_def has_def)

lemma core_head_not_close: "wf_value env s \<Longrightarrow> peek (core s @ rest) 0 \<noteq> Some CHR '']''"
  using core_head [of env s] by (auto simp: peek_def)

lemma inert_ws_then: "blank a \<Longrightarrow> inert (peek rest 0) \<Longrightarrow> inert (peek (a @ rest) 0)"
  by (cases a) (auto simp: blank_def peek_def inert_def delimiters_def)

lemma wf_ws: "wf_value env s \<Longrightarrow> blank (sbefore s) \<and> blank (safter s)"
  by (cases s) auto

lemma etail_head:
  "d \<notin> WS_CHARS \<Longrightarrow> peek (etail c xs @ d # rest) 0 = Some c \<or> peek (etail c xs @ d # rest) 0 = Some d"
  by (cases xs) (simp_all add: peek_def)

lemma svalues_Cons:
  "svalues env (x # xs) = Some vs \<Longrightarrow>
     \<exists>v vs'. svalue env x = Some v \<and> svalues env xs = Some vs' \<and> vs = v # vs'"
  by (auto split: option.splits)

lemma array_loop_elems:
  assumes Q: "\<And>x v buf pre rest p. x \<in> set xs \<Longrightarrow> svalue env x = Some v \<Longrightarrow>
        buf = pre @ core x @ rest \<Longrightarrow> p = length pre \<Longrightarrow> inert (peek rest 0) \<Longrightarrow>
        \<exists>n. parseJson n env buf p = Some (Ok v (p + length (core x)))"
    and wf: "\<forall>x \<in> set xs. wf_value env x"
  shows "svalues env xs = Some vs \<Longrightarrow> buf = pre @ etail (CHR '','') xs @ CHR '']'' # rest \<Longrightarrow>
     p = length pre \<Longrightarrow>
     \<exists>n. parseArray_loop n env buf p acc
        = Some (Ok (TArray (acc @ vs)) (p + length (etail (CHR '','') xs) + 1))"
  using assms
proof (induction xs arbitrary: pre p acc vs)
  case Nil
  then have "peek buf p = Some CHR '']''" by (intro peek_at [of _ pre _ rest]) simp_all
  then have "parseArray_loop (Suc 0) env buf p acc = Some (Ok (TArray acc) (p + 1))"
    by (simp add: parseArray_loop.simps(2))
  with Nil.prems(1) show ?case by (intro exI [of _ "Suc 0"]) simp
next
  case (Cons x xs)
  let ?b = "sbefore x" and ?a = "safter x"
  let ?tl = "etail (CHR '','') xs @ CHR '']'' # rest"
  from svalues_Cons [OF Cons.prems(1)] obtain v vs' where
    sv: "svalue env x = Some v" and svs: "svalues env xs = Some vs'" and vs: "vs = v # vs'"
    by blast
  from Cons.prems(5) have wfx: "wf_value env x" and wfxs: "\<forall>y \<in> set xs. wf_value env y" by auto
  from wf_ws [OF wfx] have wsb: "blank ?b" and wsa: "blank ?a" by auto
  have buf: "buf = pre @ CHR '','' # ?b @ core x @ ?a @ ?tl"
    using Cons.prems(2) by (simp add: render_def)
  have c1: "peek buf p = Some CHR '',''"
    using buf Cons.prems(3) by (intro peek_at [of _ pre _ "?b @ core x @ ?a @ ?tl"]) simp_all
  have w1: "white buf (p + 1) = p + 1 + length ?b"
    using buf Cons.prems(3) wsb core_head_not_ws [OF wfx]
    by (intro white_over [of _ "pre @ [CHR '','']" _ "core x @ ?a @ ?tl"]) simp_all
  have tl_head: "peek ?tl 0 = Some CHR '','' \<or> peek ?tl 0 = Some CHR '']''"
    by (rule etail_head) (simp add: WS_CHARS_def)
  then have tl_inert: "inert (peek ?tl 0)" and tl_nws: "\<not> has WS_CHARS (peek ?tl 0)"
    by (auto simp: inert_def delimiters_def has_def WS_CHARS_def)
  have "\<exists>n. parseJson n env buf (p + 1 + length ?b) = Some (Ok v (p + 1 + length ?b + length (core x)))"
    using buf Cons.prems(3) inert_ws_then [OF wsa tl_inert] sv
    by (intro Cons.prems(4) [of x _ _ "pre @ CHR '','' # ?b" "?a @ ?tl"]) simp_all
  then obtain n1 where
    j: "parseJson n1 env buf (p + 1 + length ?b) = Some (Ok v (p + 1 + length ?b + length (core x)))"
    by blast
  let ?p1 = "p + 1 + length ?b + length (core x)"
  have w2: "white buf ?p1 = ?p1 + length ?a"
    using buf Cons.prems(3) wsa tl_nws
    by (intro white_over [of _ "pre @ CHR '','' # ?b @ core x" _ ?tl]) simp_all
  have Q': "\<And>y v buf pre rest p. y \<in> set xs \<Longrightarrow> svalue env y = Some v \<Longrightarrow>
        buf = pre @ core y @ rest \<Longrightarrow> p = length pre \<Longrightarrow> inert (peek rest 0) \<Longrightarrow>
        \<exists>n. parseJson n env buf p = Some (Ok v (p + length (core y)))"
    using Cons.prems(4) by simp
  have "\<exists>n. parseArray_loop n env buf (?p1 + length ?a) (acc @ [v])
        = Some (Ok (TArray ((acc @ [v]) @ vs'))
                  (?p1 + length ?a + length (etail (CHR '','') xs) + 1))"
    using buf Cons.prems(3)
    by (intro Cons.IH [where pre = "pre @ CHR '','' # render x", OF svs _ _ Q' wfxs])
       (simp_all add: render_def)
  then obtain n2 where
    l: "parseArray_loop n2 env buf (?p1 + length ?a) (acc @ [v])
        = Some (Ok (TArray ((acc @ [v]) @ vs'))
                  (?p1 + length ?a + length (etail (CHR '','') xs) + 1))"
    by blast
  let ?n = "max n1 n2"
  have j': "parseJson ?n env buf (p + 1) = Some (Ok v ?p1)"
    using parseJson_le [OF j, of ?n] parseJson_white [of ?n env buf "p + 1"] w1 by simp
  have l': "parseArray_loop ?n env buf (?p1 + length ?a) (acc @ [v])
        = Some (Ok (TArray ((acc @ [v]) @ vs'))
                  (?p1 + length ?a + length (etail (CHR '','') xs) + 1))"
    using parseArray_loop_le [OF l, of ?n] by simp
  have "parseArray_loop (Suc ?n) env buf p acc
        = Some (Ok (TArray ((acc @ [v]) @ vs'))
                  (?p1 + length ?a + length (etail (CHR '','') xs) + 1))"
    using c1 j' l' w2 by (simp add: parseArray_loop.simps(2))
  then show ?case
    by (intro exI [of _ "Suc ?n"]) (simp add: render_def vs)
qed

lemma mtail_head:
  "peek (mtail ms @ CHR ''}'' # rest) 0 = Some CHR '','' \<or> peek (mtail ms @ CHR ''}'' # rest) 0 = Some CHR ''}''"
  by (cases ms) (simp_all add: peek_def)

lemma smembers_Cons:
  "smembers env acc ((k, x) # ms) = Some obj \<Longrightarrow>
     \<exists>v acc1. svalue env x = Some v \<and> assign (key_value k) v acc = Some acc1
        \<and> smembers env acc1 ms = Some obj"
  by (auto split: option.splits)

lemma object_loop_members:
  assumes Q: "\<And>y v buf pre rest p. y \<in> snd ` set ((Key kb kt ka, x) # ms) \<Longrightarrow> svalue env y = Some v \<Longrightarrow>
        buf = pre @ core y @ rest \<Longrightarrow> p = length pre \<Longrightarrow> inert (peek rest 0) \<Longrightarrow>
        \<exists>n. parseJson n env buf p = Some (Ok v (p + length (core y)))"
    and wfk: "wf_key (Key kb kt ka)" and wfx: "wf_value env x"
    and wfms: "\<forall>(k, y) \<in> set ms. wf_key k \<and> wf_value env y"
  shows "buf = pre @ kt @ ka @ CHR '':'' # sbefore x @ core x @ safter x @ mtail ms @ CHR ''}'' # rest \<Longrightarrow>
     p = length pre \<Longrightarrow> smembers env acc ((Key kb kt ka, x) # ms) = Some obj \<Longrightarrow>
     \<exists>n. parseObject_loop n env buf p acc
        = Some (Ok obj
             (p + length (kt @ ka @ CHR '':'' # sbefore x @ core x @ safter x @ mtail ms) + 1))"
  using assms
proof (induction ms arbitrary: pre p acc kb kt ka x)
  case (Nil pre p acc kb kt ka x)
  note prems = Nil.prems(1,2,4,5,6,7)
  from smembers_Cons [OF Nil.prems(3)] obtain v acc1 where
    sv: "svalue env x = Some v" and as: "assign (key_value (Key kb kt ka)) v acc = Some acc1"
    and obj: "acc1 = obj"
    by auto
  let ?b = "sbefore x" and ?a = "safter x"
  let ?tl = "CHR ''}'' # rest"
  from prems(4) obtain kv where
    ks: "parseString (length kt) kt 0 = Some (Ok kv (length kt))" and ktne: "kt \<noteq> []"
    and wska: "blank ka"
    by (auto split: option.splits result.splits)
  then have kval: "key_value (Key kb kt ka) = kv" by simp
  from wf_ws [OF prems(5)] have wsb: "blank ?b" and wsa: "blank ?a" by auto
  have buf: "buf = pre @ kt @ ka @ CHR '':'' # ?b @ core x @ ?a @ ?tl"
    using prems(1) by simp
  have "inert (peek (ka @ CHR '':'' # ?b @ core x @ ?a @ ?tl) 0)"
    using wska by (intro inert_ws_then) (simp_all add: peek_def inert_def delimiters_def)
  then have h: "holds buf p kt"
    unfolding buf prems(2) by (rule holds_append)
  from ktne have lt: "0 < length kt" by simp
  from parseString_holds [OF h lt ks] have s: "parseString (length kt) buf p = Some (Ok kv (p + length kt))"
    by simp
  have w1: "white buf (p + length kt) = p + length kt + length ka"
    using buf prems(2) wska
    by (intro white_over [of _ "pre @ kt" _ "CHR '':'' # ?b @ core x @ ?a @ ?tl"])
       (simp_all add: peek_def has_def WS_CHARS_def)
  let ?p2 = "p + length kt + length ka"
  have c2: "peek buf ?p2 = Some CHR '':''"
    using buf prems(2) by (intro peek_at [of _ "pre @ kt @ ka" _ "?b @ core x @ ?a @ ?tl"]) simp_all
  have w3: "white buf (?p2 + 1) = ?p2 + 1 + length ?b"
    using buf prems(2) wsb core_head_not_ws [OF prems(5)]
    by (intro white_over [of _ "pre @ kt @ ka @ [CHR '':'']" _ "core x @ ?a @ ?tl"]) simp_all
  have tl_inert: "inert (peek ?tl 0)" and tl_nws: "\<not> has WS_CHARS (peek ?tl 0)"
    by (simp_all add: peek_def inert_def delimiters_def has_def WS_CHARS_def)
  have "\<exists>n. parseJson n env buf (?p2 + 1 + length ?b)
      = Some (Ok v (?p2 + 1 + length ?b + length (core x)))"
    using buf prems(2) inert_ws_then [OF wsa tl_inert] sv
    by (intro prems(3) [of x _ _ "pre @ kt @ ka @ CHR '':'' # ?b" "?a @ ?tl"]) simp_all
  then obtain n1 where
    j: "parseJson n1 env buf (?p2 + 1 + length ?b)
      = Some (Ok v (?p2 + 1 + length ?b + length (core x)))"
    by blast
  let ?p3 = "?p2 + 1 + length ?b + length (core x)"
  have w4: "white buf ?p3 = ?p3 + length ?a"
    using buf prems(2) wsa tl_nws
    by (intro white_over [of _ "pre @ kt @ ka @ CHR '':'' # ?b @ core x" _ ?tl]) simp_all
  have c4: "peek buf (?p3 + length ?a) = Some CHR ''}''"
    using buf prems(2)
    by (intro peek_at [of _ "pre @ kt @ ka @ CHR '':'' # ?b @ core x @ ?a" _ rest]) simp_all
  let ?n = "max n1 (length kt)"
  have s': "parseString ?n buf p = Some (Ok kv (p + length kt))"
    using parseString_le [OF s, of ?n] by simp
  have j': "parseJson ?n env buf (?p2 + 1) = Some (Ok v ?p3)"
    using parseJson_le [OF j, of ?n] parseJson_white [of ?n env buf "?p2 + 1"] w3 by simp
  have "parseObject_loop (Suc ?n) env buf p acc = Some (Ok obj (?p3 + length ?a + 1))"
    using s' w1 c2 j' w4 c4 as obj by (simp add: parseObject_loop.simps(2) Let_def ks)
  then show ?case
    by (intro exI [of _ "Suc ?n"]) simp
next
  case (Cons m ms pre p acc kb kt ka x)
  note prems = Cons.prems(1,2,4,5,6,7)
  from smembers_Cons [OF Cons.prems(3)] obtain v acc1 where
    sv: "svalue env x = Some v" and as: "assign (key_value (Key kb kt ka)) v acc = Some acc1"
    and rest: "smembers env acc1 (m # ms) = Some obj"
    by auto
  obtain kb' kt' ka' x' where m: "m = (Key kb' kt' ka', x')"
    by (cases m) (metis keysyn.exhaust)
  let ?b = "sbefore x" and ?a = "safter x"
  let ?body' = "kt' @ ka' @ CHR '':'' # sbefore x' @ core x' @ safter x' @ mtail ms @ CHR ''}'' # rest"
  let ?tl = "CHR '','' # kb' @ ?body'"
  from prems(4) obtain kv where
    ks: "parseString (length kt) kt 0 = Some (Ok kv (length kt))" and ktne: "kt \<noteq> []"
    and wska: "blank ka"
    by (auto split: option.splits result.splits)
  then have kval: "key_value (Key kb kt ka) = kv" by simp
  from prems(6) m have wfk': "wf_key (Key kb' kt' ka')" and wfx': "wf_value env x'"
    and wfms: "\<forall>(k, y) \<in> set ms. wf_key k \<and> wf_value env y"
    by auto
  from wfk' have wskb': "blank kb'" and kt'q: "kt' \<noteq> []" "hd kt' = CHR 0x22" by auto
  from wf_ws [OF prems(5)] have wsb: "blank ?b" and wsa: "blank ?a" by auto
  have buf: "buf = pre @ kt @ ka @ CHR '':'' # ?b @ core x @ ?a @ ?tl"
    using prems(1) m by simp
  have "inert (peek (ka @ CHR '':'' # ?b @ core x @ ?a @ ?tl) 0)"
    using wska by (intro inert_ws_then) (simp_all add: peek_def inert_def delimiters_def)
  then have h: "holds buf p kt"
    unfolding buf prems(2) by (rule holds_append)
  from ktne have lt: "0 < length kt" by simp
  from parseString_holds [OF h lt ks] have s: "parseString (length kt) buf p = Some (Ok kv (p + length kt))"
    by simp
  have w1: "white buf (p + length kt) = p + length kt + length ka"
    using buf prems(2) wska
    by (intro white_over [of _ "pre @ kt" _ "CHR '':'' # ?b @ core x @ ?a @ ?tl"])
       (simp_all add: peek_def has_def WS_CHARS_def)
  let ?p2 = "p + length kt + length ka"
  have c2: "peek buf ?p2 = Some CHR '':''"
    using buf prems(2) by (intro peek_at [of _ "pre @ kt @ ka" _ "?b @ core x @ ?a @ ?tl"]) simp_all
  have w3: "white buf (?p2 + 1) = ?p2 + 1 + length ?b"
    using buf prems(2) wsb core_head_not_ws [OF prems(5)]
    by (intro white_over [of _ "pre @ kt @ ka @ [CHR '':'']" _ "core x @ ?a @ ?tl"]) simp_all
  have tl_inert: "inert (peek ?tl 0)" and tl_nws: "\<not> has WS_CHARS (peek ?tl 0)"
    by (simp_all add: peek_def inert_def delimiters_def has_def WS_CHARS_def)
  have "\<exists>n. parseJson n env buf (?p2 + 1 + length ?b)
      = Some (Ok v (?p2 + 1 + length ?b + length (core x)))"
    using buf prems(2) inert_ws_then [OF wsa tl_inert] sv
    by (intro prems(3) [of x _ _ "pre @ kt @ ka @ CHR '':'' # ?b" "?a @ ?tl"]) simp_all
  then obtain n1 where
    j: "parseJson n1 env buf (?p2 + 1 + length ?b)
      = Some (Ok v (?p2 + 1 + length ?b + length (core x)))"
    by blast
  let ?p3 = "?p2 + 1 + length ?b + length (core x)"
  have w4: "white buf ?p3 = ?p3 + length ?a"
    using buf prems(2) wsa tl_nws
    by (intro white_over [of _ "pre @ kt @ ka @ CHR '':'' # ?b @ core x" _ ?tl]) simp_all
  let ?p4 = "?p3 + length ?a"
  have c4: "peek buf ?p4 = Some CHR '',''"
    using buf prems(2)
    by (intro peek_at [of _ "pre @ kt @ ka @ CHR '':'' # ?b @ core x @ ?a" _ "kb' @ ?body'"]) simp_all
  have q: "\<not> has WS_CHARS (peek ?body' 0)"
    using kt'q by (cases kt') (simp_all add: peek_def has_def WS_CHARS_def)
  have w5: "white buf (?p4 + 1) = ?p4 + 1 + length kb'"
    using buf prems(2) wskb' q
    by (intro white_over [of _ "pre @ kt @ ka @ CHR '':'' # ?b @ core x @ ?a @ [CHR '','']" _ ?body'])
       simp_all
  have Q': "\<And>y v buf pre rest p. y \<in> snd ` set ((Key kb' kt' ka', x') # ms) \<Longrightarrow> svalue env y = Some v \<Longrightarrow>
        buf = pre @ core y @ rest \<Longrightarrow> p = length pre \<Longrightarrow> inert (peek rest 0) \<Longrightarrow>
        \<exists>n. parseJson n env buf p = Some (Ok v (p + length (core y)))"
    using prems(3) m by auto
  have "\<exists>n. parseObject_loop n env buf (?p4 + 1 + length kb') acc1
        = Some (Ok obj
             (?p4 + 1 + length kb'
                + length (kt' @ ka' @ CHR '':'' # sbefore x' @ core x' @ safter x' @ mtail ms) + 1))"
    using buf prems(2) rest [unfolded m]
    by (intro Cons.IH [where pre = "pre @ kt @ ka @ CHR '':'' # ?b @ core x @ ?a @ CHR '','' # kb'"
          and kb = kb' and kt = kt' and ka = ka' and x = x', OF _ _ _ Q' wfk' wfx' wfms]) simp_all
  then obtain n2 where
    l: "parseObject_loop n2 env buf (?p4 + 1 + length kb') acc1
        = Some (Ok obj
             (?p4 + 1 + length kb'
                + length (kt' @ ka' @ CHR '':'' # sbefore x' @ core x' @ safter x' @ mtail ms) + 1))"
    by blast
  let ?n = "max (max n1 n2) (length kt)"
  have s': "parseString ?n buf p = Some (Ok kv (p + length kt))"
    using parseString_le [OF s, of ?n] by simp
  have j': "parseJson ?n env buf (?p2 + 1) = Some (Ok v ?p3)"
    using parseJson_le [OF j, of ?n] parseJson_white [of ?n env buf "?p2 + 1"] w3 by simp
  note l' = parseObject_loop_le [OF l, of ?n]
  have "parseObject_loop (Suc ?n) env buf p acc
      = Some (Ok obj
             (?p4 + 1 + length kb'
                + length (kt' @ ka' @ CHR '':'' # sbefore x' @ core x' @ safter x' @ mtail ms) + 1))"
    using s' w1 c2 j' w4 c4 w5 l' as by (simp add: parseObject_loop.simps(2) Let_def ks)
  then show ?case
    by (intro exI [of _ "Suc ?n"]) (simp add: m)
qed

lemma sep_by_elems:
  "sep_by c (map (\<lambda>x. sbefore x @ core x @ safter x) (x # xs))
     = sbefore x @ core x @ safter x @ etail c xs"
  by (simp add: render_def comp_def)

lemma sep_by_members:
  "sep_by (CHR '','') (map (\<lambda>(k, x). keytext k @ '':'' @ sbefore x @ core x @ safter x) ((Key kb kt ka, x) # ms))
     = kb @ kt @ ka @ CHR '':'' # sbefore x @ core x @ safter x @ mtail ms"
  by (simp add: comp_def)

lemma parseArray_elems:
  assumes Q: "\<And>x v buf pre rest p. x \<in> set xs \<Longrightarrow> svalue env x = Some v \<Longrightarrow>
        buf = pre @ core x @ rest \<Longrightarrow> p = length pre \<Longrightarrow> inert (peek rest 0) \<Longrightarrow>
        \<exists>n. parseJson n env buf p = Some (Ok v (p + length (core x)))"
    and wf: "\<forall>x \<in> set xs. wf_value env x" and wsi: "blank i"
    and buf: "buf = pre @ core (ArrayS b i xs a) @ rest" and p: "p = length pre"
    and sv: "svalues env xs = Some vs"
  shows "\<exists>n. parseArray n env buf p
        = Some (Ok (TArray vs) (p + length (core (ArrayS b i xs a))))"
proof (cases xs)
  case Nil
  with sv have vs: "vs = []" by simp
  have buf': "buf = pre @ CHR ''['' # i @ CHR '']'' # rest"
    using buf Nil by simp
  have w: "white buf (p + 1) = p + 1 + length i"
    using buf' p wsi
    by (intro white_over [of _ "pre @ [CHR ''['']" _ "CHR '']'' # rest"])
       (simp_all add: peek_def has_def WS_CHARS_def)
  have c: "peek buf (p + 1 + length i) = Some CHR '']''"
    using buf' p by (intro peek_at [of _ "pre @ CHR ''['' # i" _ rest]) simp_all
  have "parseArray (Suc 0) env buf p = Some (Ok (TArray []) (p + 1 + length i + 1))"
    using w c by (simp add: parseArray.simps(2))
  then show ?thesis using Nil vs by (intro exI [of _ "Suc 0"]) simp
next
  case (Cons x xs')
  let ?b = "sbefore x" and ?a = "safter x"
  let ?tl = "etail (CHR '','') xs' @ CHR '']'' # rest"
  from svalues_Cons [OF sv [unfolded Cons]] obtain v vs' where
    svx: "svalue env x = Some v" and svs: "svalues env xs' = Some vs'" and vs: "vs = v # vs'"
    by blast
  from wf Cons have wfx: "wf_value env x" and wfxs: "\<forall>y \<in> set xs'. wf_value env y" by auto
  from wf_ws [OF wfx] have wsb: "blank ?b" and wsa: "blank ?a" by auto
  have buf': "buf = pre @ CHR ''['' # i @ ?b @ core x @ ?a @ ?tl"
    using buf unfolding Cons core.simps sep_by_elems by simp
  have wib: "blank (i @ ?b)" using wsi wsb by (simp add: blank_def)
  have w: "white buf (p + 1) = p + 1 + length (i @ ?b)"
    using buf' p wib core_head_not_ws [OF wfx]
    by (intro white_over [of _ "pre @ [CHR ''['']" _ "core x @ ?a @ ?tl"]) simp_all
  let ?p0 = "p + 1 + length i + length ?b"
  have c: "peek buf ?p0 \<noteq> Some CHR '']''"
    using buf' p core_head_not_close [OF wfx, of "?a @ ?tl"]
      peek_rest [of buf "pre @ CHR ''['' # i @ ?b" "core x @ ?a @ ?tl" ?p0]
    by simp
  have tl_head: "peek ?tl 0 = Some CHR '','' \<or> peek ?tl 0 = Some CHR '']''"
    by (rule etail_head) (simp add: WS_CHARS_def)
  then have tl_inert: "inert (peek ?tl 0)" and tl_nws: "\<not> has WS_CHARS (peek ?tl 0)"
    by (auto simp: inert_def delimiters_def has_def WS_CHARS_def)
  have "\<exists>n. parseJson n env buf ?p0 = Some (Ok v (?p0 + length (core x)))"
    using buf' p inert_ws_then [OF wsa tl_inert] Cons svx
    by (intro Q [of x _ _ "pre @ CHR ''['' # i @ ?b" "?a @ ?tl"]) simp_all
  then obtain n1 where
    j: "parseJson n1 env buf ?p0 = Some (Ok v (?p0 + length (core x)))"
    by blast
  let ?p1 = "?p0 + length (core x)"
  have w2: "white buf ?p1 = ?p1 + length ?a"
    using buf' p wsa tl_nws
    by (intro white_over [of _ "pre @ CHR ''['' # i @ ?b @ core x" _ ?tl]) simp_all
  have Q': "\<And>y v buf pre rest p. y \<in> set xs' \<Longrightarrow> svalue env y = Some v \<Longrightarrow>
        buf = pre @ core y @ rest \<Longrightarrow> p = length pre \<Longrightarrow> inert (peek rest 0) \<Longrightarrow>
        \<exists>n. parseJson n env buf p = Some (Ok v (p + length (core y)))"
    using Q Cons by simp
  have "\<exists>n. parseArray_loop n env buf (?p1 + length ?a) [v]
        = Some (Ok (TArray ([v] @ vs'))
                  (?p1 + length ?a + length (etail (CHR '','') xs') + 1))"
    using buf' p
    by (intro array_loop_elems [where xs = xs' and pre = "pre @ CHR ''['' # i @ ?b @ core x @ ?a"
          and rest = rest, OF Q' wfxs svs])
       simp_all
  then obtain n2 where
    l: "parseArray_loop n2 env buf (?p1 + length ?a) [v]
        = Some (Ok (TArray ([v] @ vs'))
                  (?p1 + length ?a + length (etail (CHR '','') xs') + 1))"
    by blast
  let ?n = "max n1 n2"
  have j': "parseJson ?n env buf ?p0 = Some (Ok v ?p1)"
    using parseJson_le [OF j, of ?n] by simp
  note l' = parseArray_loop_le [OF l, of ?n]
  have "parseArray (Suc ?n) env buf p
        = Some (Ok (TArray ([v] @ vs'))
                  (?p1 + length ?a + length (etail (CHR '','') xs') + 1))"
    using w c j' w2 l' by (simp add: parseArray.simps(2) add.assoc)
  then show ?thesis
    unfolding Cons core.simps sep_by_elems vs by (intro exI [of _ "Suc ?n"]) simp
qed

lemma parseObject_members:
  assumes Q: "\<And>y v buf pre rest p. y \<in> snd ` set ms \<Longrightarrow> svalue env y = Some v \<Longrightarrow>
        buf = pre @ core y @ rest \<Longrightarrow> p = length pre \<Longrightarrow> inert (peek rest 0) \<Longrightarrow>
        \<exists>n. parseJson n env buf p = Some (Ok v (p + length (core y)))"
    and wf: "\<forall>(k, y) \<in> set ms. wf_key k \<and> wf_value env y" and wsi: "blank i"
    and buf: "buf = pre @ core (ObjectS b [] i ms a) @ rest" and p: "p = length pre"
    and sm: "smembers env (TObject None []) ms = Some obj"
  shows "\<exists>n. parseObject n env buf p
        = Some (Ok obj (p + length (core (ObjectS b [] i ms a))))"
proof (cases ms)
  case Nil
  with sm have obj: "obj = TObject None []" by simp
  have buf': "buf = pre @ CHR ''{'' # i @ CHR ''}'' # rest"
    using buf Nil by simp
  have w: "white buf (p + 1) = p + 1 + length i"
    using buf' p wsi
    by (intro white_over [of _ "pre @ [CHR ''{'']" _ "CHR ''}'' # rest"])
       (simp_all add: peek_def has_def WS_CHARS_def)
  have c: "peek buf (p + 1 + length i) = Some CHR ''}''"
    using buf' p by (intro peek_at [of _ "pre @ CHR ''{'' # i" _ rest]) simp_all
  have "parseObject (Suc 0) env buf p = Some (Ok (TObject None []) (p + 1 + length i + 1))"
    using w c by (simp add: parseObject.simps(2))
  then show ?thesis using Nil obj by (intro exI [of _ "Suc 0"]) simp
next
  case (Cons m ms')
  obtain kb kt ka x where m: "m = (Key kb kt ka, x)"
    by (cases m) (metis keysyn.exhaust)
  let ?body = "kt @ ka @ CHR '':'' # sbefore x @ core x @ safter x @ mtail ms'"
  from wf Cons m have wfk: "wf_key (Key kb kt ka)" and wfx: "wf_value env x"
    and wfms: "\<forall>(k, y) \<in> set ms'. wf_key k \<and> wf_value env y"
    by auto
  from wfk have wskb: "blank kb" and ktq: "kt \<noteq> []" "hd kt = CHR 0x22" by auto
  have buf': "buf = pre @ CHR ''{'' # i @ kb @ ?body @ CHR ''}'' # rest"
    using buf unfolding Cons m core.simps sep_by_members by simp
  have wib: "blank (i @ kb)" using wsi wskb by (simp add: blank_def)
  have q: "\<not> has WS_CHARS (peek (?body @ CHR ''}'' # rest) 0)"
    using ktq by (cases kt) (simp_all add: peek_def has_def WS_CHARS_def)
  have w: "white buf (p + 1) = p + 1 + length (i @ kb)"
    using buf' p wib q
    by (intro white_over [of _ "pre @ [CHR ''{'']" _ "?body @ CHR ''}'' # rest"]) simp_all
  let ?p0 = "p + 1 + length i + length kb"
  have c: "peek buf ?p0 \<noteq> Some CHR ''}''"
    using buf' p ktq peek_rest [of buf "pre @ CHR ''{'' # i @ kb" "?body @ CHR ''}'' # rest" ?p0]
    by (cases kt) (simp_all add: peek_def)
  have Q': "\<And>y v buf pre rest p. y \<in> snd ` set ((Key kb kt ka, x) # ms') \<Longrightarrow> svalue env y = Some v \<Longrightarrow>
        buf = pre @ core y @ rest \<Longrightarrow> p = length pre \<Longrightarrow> inert (peek rest 0) \<Longrightarrow>
        \<exists>n. parseJson n env buf p = Some (Ok v (p + length (core y)))"
    using Q Cons m by simp
  have "\<exists>n. parseObject_loop n env buf ?p0 (TObject None [])
        = Some (Ok obj (?p0 + length ?body + 1))"
    using buf' p sm [unfolded Cons m]
    by (intro object_loop_members [where pre = "pre @ CHR ''{'' # i @ kb" and rest = rest,
          OF Q' wfk wfx wfms]) simp_all
  then obtain n where
    l: "parseObject_loop n env buf ?p0 (TObject None [])
        = Some (Ok obj (?p0 + length ?body + 1))"
    by blast
  have "parseObject (Suc n) env buf p
        = Some (Ok obj (?p0 + length ?body + 1))"
    using w c l by (simp add: parseObject.simps(2) add.assoc)
  then show ?thesis
    unfolding Cons m core.simps sep_by_members by (intro exI [of _ "Suc n"]) simp
qed

lemma literal_of_None:
  "literal_of name = None \<Longrightarrow>
     name \<noteq> ''NaN'' \<and> name \<noteq> ''Infinity'' \<and> name \<noteq> ''undefined'' \<and> name \<noteq> ''null''
     \<and> name \<noteq> ''true'' \<and> name \<noteq> ''false''"
  by (auto simp: literal_of_def split: if_splits)

lemma parseJson_core:
  "wf_value env s \<Longrightarrow> svalue env s = Some v \<Longrightarrow> buf = pre @ core s @ rest \<Longrightarrow> p = length pre \<Longrightarrow>
     inert (peek rest 0) \<Longrightarrow>
     \<exists>n. parseJson n env buf p = Some (Ok v (p + length (core s)))"
proof (induction s arbitrary: v buf pre rest p)
  case (Token b t a)
  from Token.prems(1) obtain u where
    t: "t \<noteq> []" "hd t \<notin> WS_CHARS" "hd t \<noteq> CHR ''{''" "hd t \<noteq> CHR ''[''"
    and ok: "parseJson (Suc (length t)) env t 0 = Some (Ok u (length t))" and lf: "leaf u"
    by (auto simp: wf_token_def split: option.splits result.splits)
  from Token.prems(2) ok have v: "v = u" by (simp add: token_value_def)
  have h: "holds buf p t"
    using Token.prems(3,4,5) holds_append [of rest pre t] by simp
  from token_holds [OF ok lf t h] v show ?case
    by (intro exI [of _ "Suc (length t)"]) simp
next
  case (ArrayS b i xs a)
  from ArrayS.prems(1) have wfxs: "\<forall>x \<in> set xs. wf_value env x" and wsi: "blank i" by auto
  from ArrayS.prems(2) obtain vs where sv: "svalues env xs = Some vs" and v: "v = TArray vs"
    by (auto split: option.splits)
  have Q: "\<And>x v buf pre rest p. x \<in> set xs \<Longrightarrow> svalue env x = Some v \<Longrightarrow>
        buf = pre @ core x @ rest \<Longrightarrow> p = length pre \<Longrightarrow> inert (peek rest 0) \<Longrightarrow>
        \<exists>n. parseJson n env buf p = Some (Ok v (p + length (core x)))"
    using ArrayS.IH wfxs by blast
  have "\<exists>n. parseArray n env buf p
        = Some (Ok (TArray vs) (p + length (core (ArrayS b i xs a))))"
    by (rule parseArray_elems [OF _ wfxs wsi ArrayS.prems(3,4) sv]) (rule Q; assumption)
  then obtain n where
    n: "parseArray n env buf p
        = Some (Ok (TArray vs) (p + length (core (ArrayS b i xs a))))"
    by blast
  have c: "peek buf p = Some CHR ''[''"
    using ArrayS.prems(3,4) by (simp add: peek_def nth_append)
  then have w: "white buf p = p"
    by (intro white_stop) (simp add: has_def WS_CHARS_def)
  have "parseJson (Suc n) env buf p
        = Some (Ok (TArray vs) (p + length (core (ArrayS b i xs a))))"
    using c w n by (simp add: parseJson.simps(2))
  then show ?case using v by (intro exI [of _ "Suc n"]) simp
next
  case (ObjectS b tag i ms a)
  from ObjectS.prems(1) have wfms: "\<forall>(k, y) \<in> set ms. wf_key k \<and> wf_value env y" and wsi: "blank i"
    and wft: "wf_tag tag"
    by auto
  from ObjectS.prems(2) obtain obj where sm: "smembers env (TObject None []) ms = Some obj"
    and v: "tag = [] \<and> v = obj \<or> tag \<noteq> [] \<and> classes env tag = Absent \<and> v = obj
        \<or> tag \<noteq> [] \<and> classes env tag = NullClass \<and> v = setPrototypeOf_null obj
        \<or> tag \<noteq> [] \<and> classes env tag = ObjectClass \<and> v = setPrototypeOf_Object obj
        \<or> tag \<noteq> [] \<and> classes env tag = Class \<and> v = setPrototypeOf obj tag"
    by (auto split: option.splits if_splits class_entry.splits)
  have Q: "\<And>y v buf pre rest p. y \<in> snd ` set ms \<Longrightarrow> svalue env y = Some v \<Longrightarrow>
        buf = pre @ core y @ rest \<Longrightarrow> p = length pre \<Longrightarrow> inert (peek rest 0) \<Longrightarrow>
        \<exists>n. parseJson n env buf p = Some (Ok v (p + length (core y)))"
  proof -
    fix y v buf pre rest p
    assume y: "y \<in> snd ` set ms" and sv: "svalue env y = Some v"
      and r: "buf = pre @ core y @ rest" "p = length pre" "inert (peek rest 0)"
    from y obtain k where m: "(k, y) \<in> set ms" by auto
    with wfms have "wf_value env y" by auto
    from ObjectS.IH [OF m _ this sv r] show
      "\<exists>n. parseJson n env buf p = Some (Ok v (p + length (core y)))"
      by simp
  qed
  have buf': "buf = (pre @ tag) @ core (ObjectS b [] i ms a) @ rest"
    using ObjectS.prems(3) by simp
  have p': "p + length tag = length (pre @ tag)" using ObjectS.prems(4) by simp
  have "\<exists>n. parseObject n env buf (p + length tag)
        = Some (Ok obj (p + length tag + length (core (ObjectS b [] i ms a))))"
    by (rule parseObject_members [OF _ wfms wsi buf' p' sm]) (rule Q; assumption)
  then obtain n where
    n: "parseObject n env buf (p + length tag)
        = Some (Ok obj (p + length tag + length (core (ObjectS b [] i ms a))))"
    by blast
  have c: "peek buf (p + length tag) = Some CHR ''{''"
    using ObjectS.prems(3,4) by (simp add: peek_def nth_append)
  show ?case
  proof (cases "tag = []")
    case True
    with c have w: "white buf p = p"
      by (intro white_stop) (simp add: has_def WS_CHARS_def)
    have "parseJson (Suc n) env buf p
          = Some (Ok obj (p + length tag + length (core (ObjectS b [] i ms a))))"
      using c w n True by (simp add: parseJson.simps(2))
    then show ?thesis using True v by (intro exI [of _ "Suc n"]) simp
  next
    case False
    with wft have pn: "parseName tag 0 = (tag, length tag)" and lit: "literal_of tag = None"
      by (auto simp: wf_tag_def)
    have "inert (peek (core (ObjectS b [] i ms a) @ rest) 0)"
      by (simp add: peek_def inert_def delimiters_def)
    then have h: "holds buf p tag"
      using buf' ObjectS.prems(4) holds_append [of "core (ObjectS b [] i ms a) @ rest" pre tag]
      by simp
    from parseName_holds [OF h _ pn] have pn': "parseName buf p = (tag, p + length tag)"
      by simp
    from parseName_letter [OF pn' False] obtain ch where
      ch: "peek buf p = Some ch" "is_letter (of_char ch)"
      by blast
    then have w: "white buf p = p"
      by (intro white_stop) (auto simp: has_def WS_CHARS_def is_letter_def)
    have "parseJson (Suc n) env buf p
          = Some (Ok v (p + length tag + length (core (ObjectS b [] i ms a))))"
      using ch letter_not_special [OF ch(2)] w pn' literal_of_None [OF lit] c n v False
      by (auto simp: parseJson.simps(2) has_def)
    then show ?thesis by (intro exI [of _ "Suc n"]) simp
  qed
qed

lemma clean_end_head:
  assumes "clean_end (x # xs) rest" and wsa: "blank (safter x)"
  shows "inert (peek (safter x @ etail (CHR '';'') xs @ rest) 0)"
    and "\<not> has WS_CHARS (peek (etail (CHR '';'') xs @ rest) 0)"
    and "clean_end xs rest"
proof -
  show "inert (peek (safter x @ etail (CHR '';'') xs @ rest) 0)"
  proof (cases xs)
    case Nil
    with assms show ?thesis by (simp add: clean_end_def)
  next
    case (Cons y ys)
    then show ?thesis
      by (intro inert_ws_then [OF wsa]) (simp add: peek_def inert_def delimiters_def)
  qed
  show "\<not> has WS_CHARS (peek (etail (CHR '';'') xs @ rest) 0)"
    using assms by (cases xs) (simp_all add: clean_end_def peek_def has_def WS_CHARS_def)
  show "clean_end xs rest"
    using assms by (cases xs) (simp_all add: clean_end_def)
qed

lemma statements_elems:
  assumes wf: "\<forall>x \<in> set xs. wf_value env x"
  shows "buf = pre @ etail (CHR '';'') xs @ rest \<Longrightarrow> p = length pre \<Longrightarrow> clean_end xs rest \<Longrightarrow>
     svalues env xs = Some vs \<Longrightarrow>
     \<exists>n. statements n env buf p acc
        = Some (Ok (acc @ vs) (p + length (etail (CHR '';'') xs)))"
  using assms
proof (induction xs arbitrary: pre p acc vs)
  case Nil
  then have "peek buf p \<noteq> Some CHR '';''"
    using peek_rest [of buf pre rest p] by (simp add: clean_end_def)
  then have "statements (Suc 0) env buf p acc = Some (Ok acc p)"
    by (simp add: statements.simps(2))
  with Nil.prems(4) show ?case by (intro exI [of _ "Suc 0"]) simp
next
  case (Cons x xs)
  let ?b = "sbefore x" and ?a = "safter x"
  let ?tl = "etail (CHR '';'') xs @ rest"
  from Cons.prems(5) have wfx: "wf_value env x" and wfxs: "\<forall>y \<in> set xs. wf_value env y" by auto
  from svalues_Cons [OF Cons.prems(4)] obtain v vs' where
    sv: "svalue env x = Some v" and svs: "svalues env xs = Some vs'" and vs: "vs = v # vs'"
    by blast
  from wf_ws [OF wfx] have wsb: "blank ?b" and wsa: "blank ?a" by auto
  note ce = clean_end_head [OF Cons.prems(3) wsa]
  have buf: "buf = pre @ CHR '';'' # ?b @ core x @ ?a @ ?tl"
    using Cons.prems(1) by (simp add: render_def)
  have c1: "peek buf p = Some CHR '';''"
    using buf Cons.prems(2) by (intro peek_at [of _ pre _ "?b @ core x @ ?a @ ?tl"]) simp_all
  have w1: "white buf (p + 1) = p + 1 + length ?b"
    using buf Cons.prems(2) wsb core_head_not_ws [OF wfx]
    by (intro white_over [of _ "pre @ [CHR '';'']" _ "core x @ ?a @ ?tl"]) simp_all
  have "\<exists>n. parseJson n env buf (p + 1 + length ?b)
      = Some (Ok v (p + 1 + length ?b + length (core x)))"
    using buf Cons.prems(2) ce(1)
    by (intro parseJson_core [OF wfx sv, of _ "pre @ CHR '';'' # ?b" "?a @ ?tl"]) simp_all
  then obtain n1 where
    j: "parseJson n1 env buf (p + 1 + length ?b)
      = Some (Ok v (p + 1 + length ?b + length (core x)))"
    by blast
  let ?p1 = "p + 1 + length ?b + length (core x)"
  have w2: "white buf ?p1 = ?p1 + length ?a"
    using buf Cons.prems(2) wsa ce(2)
    by (intro white_over [of _ "pre @ CHR '';'' # ?b @ core x" _ ?tl]) simp_all
  have "\<exists>n. statements n env buf (?p1 + length ?a) (acc @ [v])
        = Some (Ok ((acc @ [v]) @ vs')
                  (?p1 + length ?a + length (etail (CHR '';'') xs)))"
    using buf Cons.prems(2)
    by (intro Cons.IH [where pre = "pre @ CHR '';'' # render x", OF _ _ ce(3) svs wfxs])
       (simp_all add: render_def)
  then obtain n2 where
    l: "statements n2 env buf (?p1 + length ?a) (acc @ [v])
        = Some (Ok ((acc @ [v]) @ vs')
                  (?p1 + length ?a + length (etail (CHR '';'') xs)))"
    by blast
  let ?n = "max n1 n2"
  have j': "parseJson ?n env buf (p + 1) = Some (Ok v ?p1)"
    using parseJson_le [OF j, of ?n] parseJson_white [of ?n env buf "p + 1"] w1 by simp
  note l' = statements_le [OF l, of ?n]
  have "statements (Suc ?n) env buf p acc
        = Some (Ok ((acc @ [v]) @ vs')
                  (?p1 + length ?a + length (etail (CHR '';'') xs)))"
    using c1 j' l' w2 by (simp add: statements.simps(2))
  then show ?case
    by (intro exI [of _ "Suc ?n"]) (simp add: render_def vs)
qed

lemma render_doc_Cons: "render_doc (x # xs) = sbefore x @ core x @ safter x @ etail (CHR '';'') xs"
  by (simp add: render_doc_def render_def comp_def)

lemma parseDocument_render:
  assumes ne: "d \<noteq> []" and wf: "\<forall>s \<in> set d. wf_value env s" and sv: "svalues env d = Some refs"
    and ce: "clean_end d rest"
  shows "\<exists>n. \<forall>k. parseDocument (n + k) env (render_doc d @ rest)
       = Some (if rest = [] then Ok refs (length (render_doc d))
               else Throw (SyntaxError (Some (hd rest)) (length (render_doc d))))"
proof -
  from ne obtain x xs where d: "d = x # xs" by (cases d) auto
  let ?buf = "render_doc d @ rest"
  let ?b = "sbefore x" and ?a = "safter x"
  let ?tl = "etail (CHR '';'') xs @ rest"
  from svalues_Cons [OF sv [unfolded d]] obtain v vs where
    svx: "svalue env x = Some v" and svs: "svalues env xs = Some vs" and refs: "refs = v # vs"
    by blast
  from wf d have wfx: "wf_value env x" and wfxs: "\<forall>y \<in> set xs. wf_value env y" by auto
  from wf_ws [OF wfx] have wsb: "blank ?b" and wsa: "blank ?a" by auto
  note h = clean_end_head [OF ce [unfolded d] wsa]
  have buf: "?buf = [] @ ?b @ core x @ ?a @ ?tl"
    by (simp add: d render_doc_Cons)
  have w1: "white ?buf 0 = 0 + length ?b"
    using core_head_not_ws [OF wfx]
    by (intro white_over [of _ "[]" _ "core x @ ?a @ ?tl"]) (simp_all add: d render_doc_Cons wsb)
  have "\<exists>n. parseJson n env ?buf (length ?b) = Some (Ok v (length ?b + length (core x)))"
    using h(1) by (intro parseJson_core [OF wfx svx, of _ ?b "?a @ ?tl"]) (simp_all add: d render_doc_Cons)
  then obtain n1 where
    j: "parseJson n1 env ?buf (length ?b) = Some (Ok v (length ?b + length (core x)))"
    by blast
  let ?p1 = "length ?b + length (core x)"
  have w2: "white ?buf ?p1 = ?p1 + length ?a"
    using wsa h(2)
    by (intro white_over [of _ "?b @ core x" _ ?tl]) (simp_all add: d render_doc_Cons)
  have "\<exists>n. statements n env ?buf (?p1 + length ?a) [v]
        = Some (Ok ([v] @ vs) (?p1 + length ?a + length (etail (CHR '';'') xs)))"
    by (intro statements_elems [OF wfxs, where pre = "?b @ core x @ ?a" and rest = rest, OF _ _ h(3) svs])
       (simp_all add: d render_doc_Cons)
  then obtain n2 where
    l: "statements n2 env ?buf (?p1 + length ?a) [v]
        = Some (Ok ([v] @ vs) (?p1 + length ?a + length (etail (CHR '';'') xs)))"
    by blast
  let ?n = "max n1 n2"
  have j': "parseJson ?n env ?buf 0 = Some (Ok v ?p1)"
    using parseJson_le [OF j, of ?n] parseJson_white [of ?n env ?buf 0] w1 by simp
  note l' = statements_le [OF l, of ?n]
  have len: "?p1 + length ?a + length (etail (CHR '';'') xs) = length (render_doc d)"
    by (simp add: d render_doc_Cons)
  have e: "rest \<noteq> [] \<Longrightarrow> error ?buf (length (render_doc d)) = SyntaxError (Some (hd rest)) (length (render_doc d))"
    by (cases rest) (simp_all add: error_def peek_def)
  have "parseDocument ?n env ?buf
       = Some (if rest = [] then Ok refs (length (render_doc d))
               else Throw (SyntaxError (Some (hd rest)) (length (render_doc d))))"
    using j' w2 l' e unfolding parseDocument_def len [symmetric]
    by (simp add: d render_doc_Cons refs)
  then have "parseDocument (?n + k) env ?buf
       = Some (if rest = [] then Ok refs (length (render_doc d))
               else Throw (SyntaxError (Some (hd rest)) (length (render_doc d))))" for k
    by (rule parseDocument_mono) simp
  then show ?thesis
    by blast
qed

lemma key_value_strip: "key_value (strip_key k) = key_value k"
  by (cases k) simp

lemma svalue_strip:
  "svalue env (strip s) = svalue env s"
  "svalues env (map strip xs) = svalues env xs"
  "smembers env obj (map (\<lambda>(k, x). (strip_key k, strip x)) ms) = smembers env obj ms"
  by (induction env s and env xs and env obj ms rule: svalue_svalues_smembers.induct)
     (auto simp: key_value_strip split: option.splits)

lemma same_tokens_same_values:
  assumes "map strip d' = map strip d"
  shows "svalues env d' = svalues env d"
  using svalue_strip(2) [of env d] svalue_strip(2) [of env d'] assms by simp

lemma clean_end_Nil:
  assumes "\<forall>s \<in> set d. wf_value env s"
  shows "clean_end d []"
proof (cases "d = []")
  case True
  then show ?thesis by (simp add: clean_end_def peek_def has_def)
next
  case False
  with assms have "wf_value env (last d)" by simp
  from wf_ws [OF this] have "blank (safter (last d))" by simp
  then have "inert (peek (safter (last d) @ []) 0)"
    by (rule inert_ws_then) (simp add: peek_def inert_def)
  then show ?thesis by (simp add: clean_end_def peek_def has_def)
qed

lemma deserialize_same_table:
  assumes "parseDocument n env code = Some (Ok refs p)" "parseDocument n env code' = Some (Ok refs p')"
  shows "deserialize n env code' = deserialize n env code"
  using assms by (simp add: deserialize_def)






section \<open>Whitespace between tokens\<close>

text \<open>
  Between any two tokens of the grammar the parser skips whitespace: two documents
  with the same tokens, whatever whitespace each has between them, fill the
  reference table alike and give the same result.
\<close>

lemma same_tokens_same_result:
  assumes "d \<noteq> []" and "\<forall>s \<in> set d. wf_value env s" and "\<forall>s \<in> set d'. wf_value env s"
    and "map strip d' = map strip d" and "svalues env d = Some refs"
  shows "\<exists>n. \<forall>k.
     parseDocument (n + k) env (render_doc d) = Some (Ok refs (length (render_doc d))) \<and>
     parseDocument (n + k) env (render_doc d') = Some (Ok refs (length (render_doc d'))) \<and>
     deserialize (n + k) env (render_doc d') = deserialize (n + k) env (render_doc d)"
proof -
  from assms(1,4) have ne': "d' \<noteq> []" by auto
  from same_tokens_same_values [OF assms(4)] assms(5) have sv': "svalues env d' = Some refs"
    by simp
  from parseDocument_render [OF assms(1,2,5) clean_end_Nil [OF assms(2)]] obtain n1 where
    1: "\<And>k. parseDocument (n1 + k) env (render_doc d)
          = Some (Ok refs (length (render_doc d)))"
    by auto
  from parseDocument_render [OF ne' assms(3) sv' clean_end_Nil [OF assms(3)]] obtain n2 where
    2: "\<And>k. parseDocument (n2 + k) env (render_doc d')
          = Some (Ok refs (length (render_doc d')))"
    by auto
  have "parseDocument (max n1 n2 + k) env (render_doc d)
          = Some (Ok refs (length (render_doc d))) \<and>
        parseDocument (max n1 n2 + k) env (render_doc d')
          = Some (Ok refs (length (render_doc d'))) \<and>
        deserialize (max n1 n2 + k) env (render_doc d') = deserialize (max n1 n2 + k) env (render_doc d)" for k
  proof -
    have a: "parseDocument (max n1 n2 + k) env (render_doc d)
          = Some (Ok refs (length (render_doc d)))"
      using 1 [of "max n1 n2 + k - n1"] by simp
    have b: "parseDocument (max n1 n2 + k) env (render_doc d')
          = Some (Ok refs (length (render_doc d')))"
      using 2 [of "max n1 n2 + k - n2"] by simp
    from a b deserialize_same_table [OF a b] show ?thesis by simp
  qed
  then show ?thesis by blast
qed

text \<open>
  Claim C4 (whitespace between tokens never changes the result, also between a class
  tag and its brace). Between a class tag and its brace the source skips no
  whitespace: \<open>parseName\<close> stops at the space and the test \<open>buf[pos] === "{"\<close> fails,
  so \<open>Foo {}\<close> is a syntax error at the space, whatever the classes are, while \<open>Foo{}\<close>
  is an object of the class \<open>Foo\<close>. In every other place \<open>white()\<close> is called before the
  next token is looked at, and whitespace there changes nothing, as in the last two
  documents of the theorem and, for every document of the grammar, in
  \<open>same_tokens_same_result\<close>.
\<close>

theorem whitespace_before_brace_rejected:
  \<open>deserialize (3 + k) every_class_env ''Foo{}'' = Some (Returned (HPtr 0) [CObject (Some ''Foo'') []]) \<and>
   deserialize (1 + k) env ''Foo {}'' = Some (Thrown (SyntaxError (Some CHR '' '') 3)) \<and>
   deserialize (12 + k) every_class_env ''Foo{"a":[1,$1]};2''
     = Some (Returned (HPtr 1)
         [CArray [HAtom (VNumber (Decimal False ''1'')), HAtom (VNumber (Decimal False ''2''))],
          CObject (Some ''Foo'') [(units ''a'', HPtr 0)]]) \<and>
   deserialize (12 + k) every_class_env '' Foo{ "a" : [ 1 , $1 ] } ; 2 ''
     = Some (Returned (HPtr 1)
         [CArray [HAtom (VNumber (Decimal False ''1'')), HAtom (VNumber (Decimal False ''2''))],
          CObject (Some ''Foo'') [(units ''a'', HPtr 0)]])\<close>
proof (intro conjI)
  show \<open>deserialize (3 + k) every_class_env ''Foo{}'' = Some (Returned (HPtr 0) [CObject (Some ''Foo'') []])\<close>
    by (rule deserialize_mono) code_simp
  show \<open>deserialize (1 + k) env ''Foo {}'' = Some (Thrown (SyntaxError (Some CHR '' '') 3))\<close>
    by (rule deserialize_mono) code_simp
  show \<open>deserialize (12 + k) every_class_env ''Foo{"a":[1,$1]};2''
     = Some (Returned (HPtr 1)
         [CArray [HAtom (VNumber (Decimal False ''1'')), HAtom (VNumber (Decimal False ''2''))],
          CObject (Some ''Foo'') [(units ''a'', HPtr 0)]])\<close>
    by (rule deserialize_mono) code_simp
  show \<open>deserialize (12 + k) every_class_env '' Foo{ "a" : [ 1 , $1 ] } ; 2 ''
     = Some (Returned (HPtr 1)
         [CArray [HAtom (VNumber (Decimal False ''1'')), HAtom (VNumber (Decimal False ''2''))],
          CObject (Some ''Foo'') [(units ''a'', HPtr 0)]])\<close>
    by (rule deserialize_mono) code_simp
qed

section \<open>The driver\<close>



end
